theory Spec2Isabelle
  imports Main "HOL-Library.Word" "HOL-Library.Numeral_Type" "HOL-Library.List_Lexorder"
begin

section \<open>The solver state of dusudoku.cpp\<close>

text \<open>
  \<^verbatim>\<open>std::bitset<9>\<close> is a set of nine bits: a 9-bit word, read with \<open>bit\<close>
  (\<^verbatim>\<open>operator[]\<close>), written with \<open>set_bit\<close> (\<^verbatim>\<open>set\<close>) and \<open>unset_bit\<close>
  (\<^verbatim>\<open>reset\<close>). The four arrays of \<^verbatim>\<open>struct sudoku\<close> are lists; their fixed
  sizes (81, 9, 9, 9) are the predicate \<open>sized\<close> below.
\<close>

type_synonym bitset9 = "9 word"

record sudoku =
  grid :: "int list"
  columns :: "bitset9 list"
  rows :: "bitset9 list"
  subgrid :: "bitset9 list"

definition ninths :: "nat list" where
  "ninths =
    [0, 0, 0, 1, 1, 1, 2, 2, 2,
     0, 0, 0, 1, 1, 1, 2, 2, 2,
     0, 0, 0, 1, 1, 1, 2, 2, 2,
     3, 3, 3, 4, 4, 4, 5, 5, 5,
     3, 3, 3, 4, 4, 4, 5, 5, 5,
     3, 3, 3, 4, 4, 4, 5, 5, 5,
     6, 6, 6, 7, 7, 7, 8, 8, 8,
     6, 6, 6, 7, 7, 7, 8, 8, 8,
     6, 6, 6, 7, 7, 7, 8, 8, 8]"

definition DASH :: nat where "DASH = 45"
definition NUMERAL_ZERO :: nat where "NUMERAL_ZERO = 48"
definition NUMERAL_NINE :: nat where "NUMERAL_NINE = 57"

definition sized :: "sudoku \<Rightarrow> bool" where
  "sized s \<longleftrightarrow>
     length (grid s) = 81 \<and> length (columns s) = 9 \<and>
     length (rows s) = 9 \<and> length (subgrid s) = 9"

section \<open>solve\<close>

text \<open>
  The test of the candidate loop: digit \<open>i + 1\<close> already appears in the column, row or
  subgrid of position \<open>p\<close>.
\<close>

definition blocked :: "nat \<Rightarrow> nat \<Rightarrow> sudoku \<Rightarrow> bool" where
  "blocked p i s \<longleftrightarrow>
     bit (columns s ! (p mod 9)) i \<or> bit (rows s ! (p div 9)) i \<or>
     bit (subgrid s ! (ninths ! p)) i"

text \<open>The four writes that add the number to the current grid position.\<close>

definition place :: "nat \<Rightarrow> nat \<Rightarrow> sudoku \<Rightarrow> sudoku" where
  "place p i s =
     s\<lparr>columns := (columns s)[p mod 9 := set_bit i (columns s ! (p mod 9))],
       rows := (rows s)[p div 9 := set_bit i (rows s ! (p div 9))],
       subgrid := (subgrid s)[ninths ! p := set_bit i (subgrid s ! (ninths ! p))],
       grid := (grid s)[p := int i + 1]\<rparr>"

text \<open>The four writes of the backtracking step.\<close>

definition unplace :: "nat \<Rightarrow> nat \<Rightarrow> sudoku \<Rightarrow> sudoku" where
  "unplace p i s =
     s\<lparr>columns := (columns s)[p mod 9 := unset_bit i (columns s ! (p mod 9))],
       rows := (rows s)[p div 9 := unset_bit i (rows s ! (p div 9))],
       subgrid := (subgrid s)[ninths ! p := unset_bit i (subgrid s ! (ninths ! p))],
       grid := (grid s)[p := 0]\<rparr>"

text \<open>
  \<open>solve p s\<close> returns the boolean result together with the state the call leaves
  behind. \<open>None\<close> is the read of \<^verbatim>\<open>s->grid[p]\<close> outside the array (\<open>p > 81\<close>), which
  the source does not define. \<open>try_from p i s\<close> is the candidate loop of the call at
  position \<open>p\<close>, from iteration \<open>i\<close> on; it only runs inside a call with \<open>p < 81\<close>, and
  its first test only makes the helper total.
\<close>

function solve :: "nat \<Rightarrow> sudoku \<Rightarrow> (bool \<times> sudoku) option"
  and try_from :: "nat \<Rightarrow> nat \<Rightarrow> sudoku \<Rightarrow> (bool \<times> sudoku) option" where
  "solve p s =
     (if p = 81 then Some (True, s)
      else if 81 < p then None
      else if grid s ! p > 0 then solve (p + 1) s
      else try_from p 0 s)"
| "try_from p i s =
     (if 81 \<le> p then None
      else if i < 9 then
        (if blocked p i s then try_from p (i + 1) s
         else (case solve (p + 1) (place p i s) of
                 None \<Rightarrow> None
               | Some (True, s') \<Rightarrow> Some (True, s')
               | Some (False, s') \<Rightarrow> try_from p (i + 1) (unplace p i s')))
      else Some (False, s))"
  by pat_completeness auto
termination
  by (relation "measure (\<lambda>x. case x of
          Inl (p, s) \<Rightarrow> 11 * (81 - p) + 10
        | Inr (p, i, s) \<Rightarrow> 11 * (81 - p) + (9 - i))") auto

declare solve.simps [simp del] try_from.simps [simp del]

section \<open>readInput\<close>

text \<open>
  The input is a C string: \<open>strlen\<close> counts the characters before the first NUL. A
  \<^verbatim>\<open>char\<close> is compared through its code \<open>of_char\<close> in 0..255; where \<^verbatim>\<open>char\<close> is
  signed the codes from 128 on are negative, and both readings reject them.
\<close>

definition strlen :: "string \<Rightarrow> nat" where
  "strlen cs = length (takeWhile (\<lambda>c. c \<noteq> CHR 0x00) cs)"

fun to_string_nat :: "nat \<Rightarrow> string" where
  "to_string_nat n =
     (if n < 10 then [char_of (48 + n)]
      else to_string_nat (n div 10) @ [char_of (48 + n mod 10)])"

definition to_string :: "int \<Rightarrow> string" where
  "to_string k = (if k < 0 then CHR ''-'' # to_string_nat (nat (- k)) else to_string_nat (nat k))"

text \<open>\<open>Valid\<close> is \<^verbatim>\<open>return true\<close>; \<open>Invalid msg\<close> is \<^verbatim>\<open>*err = msg; return false\<close>.\<close>

datatype outcome = Valid | Invalid string

text \<open>The test \<^verbatim>\<open>(input[i] < NUMERAL_ZERO || input[i] > NUMERAL_NINE) && input[i] != DASH\<close>.\<close>

definition invalid_char :: "char \<Rightarrow> bool" where
  "invalid_char c \<longleftrightarrow>
     ((of_char c :: nat) < NUMERAL_ZERO \<or> (of_char c :: nat) > NUMERAL_NINE) \<and>
     (of_char c :: nat) \<noteq> DASH"

text \<open>The value \<^verbatim>\<open>num\<close> of a character that passed the test.\<close>

definition num_of :: "char \<Rightarrow> int" where
  "num_of c = (if (of_char c :: nat) \<noteq> DASH then int (of_char c) - int NUMERAL_ZERO else 0)"

text \<open>The body of the loop of \<^verbatim>\<open>readInput\<close>, at index \<open>i\<close>.\<close>

definition readCell :: "string \<Rightarrow> nat \<Rightarrow> sudoku \<Rightarrow> outcome \<times> sudoku" where
  "readCell input i s =
     (if invalid_char (input ! i)
      then (Invalid (''Invalid input character ('' @ [input ! i] @ '')''), s)
      else
        let num = num_of (input ! i);
            s1 = s\<lparr>grid := (grid s)[i := num]\<rparr>
        in if num > 0 then
             (let c_i = i mod 9; r_i = i div 9; s_i = ninths ! i; b = nat (num - 1) in
              if bit (columns s1 ! c_i) b then
                (Invalid (''The number '' @ to_string num
                    @ '' appears more than once in column '' @ to_string (int c_i + 1)), s1)
              else if bit (rows s1 ! r_i) b then
                (Invalid (''The number '' @ to_string num
                    @ '' appears more than once on row '' @ to_string (int r_i + 1)), s1)
              else if bit (subgrid s1 ! s_i) b then
                (Invalid (''The number '' @ to_string num
                    @ '' appears more than once in subgrid '' @ to_string (int c_i + 1)), s1)
              else
                (Valid, s1\<lparr>columns := (columns s1)[c_i := set_bit b (columns s1 ! c_i)],
                           rows := (rows s1)[r_i := set_bit b (rows s1 ! r_i)],
                           subgrid := (subgrid s1)[s_i := set_bit b (subgrid s1 ! s_i)]\<rparr>))
           else (Valid, s1))"

text \<open>
  The loop \<^verbatim>\<open>for (int i = ...; i < n; i++)\<close>, from index \<open>i\<close>; \<^verbatim>\<open>readInput\<close> runs it
  from 0 with \<open>n = 81\<close>. A smaller \<open>n\<close> gives the state at the head of iteration \<open>n\<close>.
\<close>

function readLoop :: "string \<Rightarrow> nat \<Rightarrow> nat \<Rightarrow> sudoku \<Rightarrow> outcome \<times> sudoku" where
  "readLoop input i n s =
     (if i < n then
        (case readCell input i s of
           (Valid, s') \<Rightarrow> readLoop input (i + 1) n s'
         | (Invalid e, s') \<Rightarrow> (Invalid e, s'))
      else (Valid, s))"
  by pat_completeness auto
termination
  by (relation "measure (\<lambda>(input, i, n, s). n - i)") auto

declare readLoop.simps [simp del]

definition readInput :: "string \<Rightarrow> sudoku \<Rightarrow> outcome \<times> sudoku" where
  "readInput input s =
     (if strlen input \<noteq> 81
      then (Invalid ''The expected input length is 81 characters'', s)
      else readLoop input 0 81 s)"

text \<open>
  \<^verbatim>\<open>sudoku s;\<close> in \<^verbatim>\<open>main\<close>: the bitsets are constructed empty, the grid is not
  initialised and holds whatever \<open>g\<close> it holds.
\<close>

definition fresh :: "int list \<Rightarrow> sudoku" where
  "fresh g = \<lparr>grid = g, columns = replicate 9 0, rows = replicate 9 0, subgrid = replicate 9 0\<rparr>"

definition example :: string where
  "example = ''53--7----6--195----98----6-8---6---34--8-3--17---2---6-6----28----419--5----8--79''"

section \<open>Validity and the invariant\<close>

text \<open>Two distinct positions that share a column, a row or a subgrid.\<close>

definition peers :: "nat \<Rightarrow> nat \<Rightarrow> bool" where
  "peers p q \<longleftrightarrow>
     p \<noteq> q \<and> (p mod 9 = q mod 9 \<or> p div 9 = q div 9 \<or> ninths ! p = ninths ! q)"

text \<open>The first \<open>n\<close> cells hold integers from 0 to 9 (0 is empty).\<close>

definition in_range :: "nat \<Rightarrow> sudoku \<Rightarrow> bool" where
  "in_range n s \<longleftrightarrow> (\<forall>q\<in>{..<n}. 0 \<le> grid s ! q \<and> grid s ! q \<le> 9)"

text \<open>
  The constraint sets are in sync with the first \<open>n\<close> cells: bit \<open>i\<close> (digit \<open>i + 1\<close>) of
  the set of a column, row or subgrid is set exactly when one of these cells lies in it and
  holds that digit.
\<close>

definition in_sync :: "nat \<Rightarrow> sudoku \<Rightarrow> bool" where
  "in_sync n s \<longleftrightarrow>
     (\<forall>u\<in>{..<9}. \<forall>i\<in>{..<9}.
        (bit (columns s ! u) i \<longleftrightarrow> (\<exists>q\<in>{..<n}. q mod 9 = u \<and> grid s ! q = int i + 1)) \<and>
        (bit (rows s ! u) i \<longleftrightarrow> (\<exists>q\<in>{..<n}. q div 9 = u \<and> grid s ! q = int i + 1)) \<and>
        (bit (subgrid s ! u) i \<longleftrightarrow> (\<exists>q\<in>{..<n}. ninths ! q = u \<and> grid s ! q = int i + 1)))"

text \<open>Among the first \<open>n\<close> cells, no filled cell shares its digit with a peer.\<close>

definition unique :: "nat \<Rightarrow> sudoku \<Rightarrow> bool" where
  "unique n s \<longleftrightarrow>
     (\<forall>p\<in>{..<n}. \<forall>q\<in>{..<n}. 0 < grid s ! p \<and> peers p q \<longrightarrow> grid s ! p \<noteq> grid s ! q)"

definition inv_upto :: "nat \<Rightarrow> sudoku \<Rightarrow> bool" where
  "inv_upto n s \<longleftrightarrow> sized s \<and> in_range n s \<and> in_sync n s \<and> unique n s"

text \<open>The invariant of a validated state: all 81 cells count.\<close>

definition inv :: "sudoku \<Rightarrow> bool" where
  "inv s \<longleftrightarrow> inv_upto 81 s"

text \<open>A solver state of the data model: the arrays have their sizes and every cell is 0 to 9.\<close>

definition well_formed :: "sudoku \<Rightarrow> bool" where
  "well_formed s \<longleftrightarrow> sized s \<and> in_range 81 s"

section \<open>The control points of a run of solve\<close>

text \<open>
  \<open>solve_trace d p s\<close> follows the run of \<open>solve p s\<close>, started at recursion depth \<open>d\<close>, and
  lists \<open>(depth, position, state)\<close> at the entry of every call and at every evaluation of the
  loop test \<^verbatim>\<open>i < 9\<close>. A call returns the state of one of these points.
\<close>

function solve_trace :: "nat \<Rightarrow> nat \<Rightarrow> sudoku \<Rightarrow> (nat \<times> nat \<times> sudoku) list"
  and try_trace :: "nat \<Rightarrow> nat \<Rightarrow> nat \<Rightarrow> sudoku \<Rightarrow> (nat \<times> nat \<times> sudoku) list" where
  "solve_trace d p s =
     (d, p, s) #
     (if p = 81 then []
      else if 81 < p then []
      else if grid s ! p > 0 then solve_trace (d + 1) (p + 1) s
      else try_trace d p 0 s)"
| "try_trace d p i s =
     (if 81 \<le> p then []
      else (d, p, s) #
        (if i < 9 then
           (if blocked p i s then try_trace d p (i + 1) s
            else solve_trace (d + 1) (p + 1) (place p i s) @
              (case solve (p + 1) (place p i s) of
                 Some (False, s') \<Rightarrow> try_trace d p (i + 1) (unplace p i s')
               | _ \<Rightarrow> []))
         else []))"
  by pat_completeness auto
termination
  by (relation "measure (\<lambda>x. case x of
          Inl (d, p, s) \<Rightarrow> 11 * (81 - p) + 10
        | Inr (d, p, i, s) \<Rightarrow> 11 * (81 - p) + (9 - i))") auto

declare solve_trace.simps [simp del] try_trace.simps [simp del]

section \<open>Completions of a puzzle\<close>

text \<open>A full grid of digits 1 to 9 in which no two peers hold the same digit.\<close>

definition valid_grid :: "int list \<Rightarrow> bool" where
  "valid_grid g \<longleftrightarrow>
     length g = 81 \<and> (\<forall>q\<in>{..<81}. 1 \<le> g ! q \<and> g ! q \<le> 9) \<and>
     (\<forall>p\<in>{..<81}. \<forall>q\<in>{..<81}. peers p q \<longrightarrow> g ! p \<noteq> g ! q)"

text \<open>A valid grid that agrees with the state on every filled cell.\<close>

definition completion :: "sudoku \<Rightarrow> int list \<Rightarrow> bool" where
  "completion s g \<longleftrightarrow> valid_grid g \<and> (\<forall>q\<in>{..<81}. 0 < grid s ! q \<longrightarrow> g ! q = grid s ! q)"

section \<open>Concrete puzzles\<close>

text \<open>
  The puzzle of the usage text, a puzzle whose last row lacks five digits, and a puzzle whose
  cell 71 has no candidate (its row holds every digit but 5, its column holds 5); each with
  the state that \<^verbatim>\<open>readInput\<close> builds from it, and the state of the solved grid.
\<close>

definition example_state :: sudoku where
  "example_state =
    \<lparr>grid =
      [5, 3, 0, 0, 7, 0, 0, 0, 0, 6, 0, 0, 1, 9, 5, 0, 0, 0, 0, 9, 8, 0, 0, 0, 0, 6, 0,
      8, 0, 0, 0, 6, 0, 0, 0, 3, 4, 0, 0, 8, 0, 3, 0, 0, 1, 7, 0, 0, 0, 2, 0, 0, 0, 6,
      0, 6, 0, 0, 0, 0, 2, 8, 0, 0, 0, 0, 4, 1, 9, 0, 0, 5, 0, 0, 0, 0, 8, 0, 0, 7, 9],
     columns = [248, 292, 128, 137, 483, 276, 2, 224, 309],
     rows = [84, 305, 416, 164, 141, 98, 162, 281, 448],
     subgrid = [436, 337, 32, 200, 166, 37, 32, 393, 466]\<rparr>"

definition solved_state :: sudoku where
  "solved_state =
    \<lparr>grid =
      [5, 3, 4, 6, 7, 8, 9, 1, 2, 6, 7, 2, 1, 9, 5, 3, 4, 8, 1, 9, 8, 3, 4, 2, 5, 6, 7,
      8, 5, 9, 7, 6, 1, 4, 2, 3, 4, 2, 6, 8, 5, 3, 7, 9, 1, 7, 1, 3, 9, 2, 4, 8, 5, 6,
      9, 6, 1, 5, 3, 7, 2, 8, 4, 2, 8, 7, 4, 1, 9, 6, 3, 5, 3, 4, 5, 2, 8, 6, 1, 7, 9],
     columns = [511, 511, 511, 511, 511, 511, 511, 511, 511],
     rows = [511, 511, 511, 511, 511, 511, 511, 511, 511],
     subgrid = [511, 511, 511, 511, 511, 511, 511, 511, 511]\<rparr>"

definition near_input :: string where
  "near_input = ''534678912672195348198342567859761423426853791713924856961537284287419635345-----9''"

definition near_state :: sudoku where
  "near_state =
    \<lparr>grid =
      [5, 3, 4, 6, 7, 8, 9, 1, 2, 6, 7, 2, 1, 9, 5, 3, 4, 8, 1, 9, 8, 3, 4, 2, 5, 6, 7,
      8, 5, 9, 7, 6, 1, 4, 2, 3, 4, 2, 6, 8, 5, 3, 7, 9, 1, 7, 1, 3, 9, 2, 4, 8, 5, 6,
      9, 6, 1, 5, 3, 7, 2, 8, 4, 2, 8, 7, 4, 1, 9, 6, 3, 5, 3, 4, 5, 0, 0, 0, 0, 0, 9],
     columns = [511, 511, 511, 509, 383, 479, 510, 447, 511],
     rows = [511, 511, 511, 511, 511, 511, 511, 511, 284],
     subgrid = [511, 511, 511, 511, 511, 511, 511, 349, 446]\<rparr>"

definition dead_input :: string where
  "dead_input = ''53467891267219534819834256785976142342685379171392485696153728428741963---------5''"

definition dead_state :: sudoku where
  "dead_state =
    \<lparr>grid =
      [5, 3, 4, 6, 7, 8, 9, 1, 2, 6, 7, 2, 1, 9, 5, 3, 4, 8, 1, 9, 8, 3, 4, 2, 5, 6, 7,
      8, 5, 9, 7, 6, 1, 4, 2, 3, 4, 2, 6, 8, 5, 3, 7, 9, 1, 7, 1, 3, 9, 2, 4, 8, 5, 6,
      9, 6, 1, 5, 3, 7, 2, 8, 4, 2, 8, 7, 4, 1, 9, 6, 3, 0, 0, 0, 0, 0, 0, 0, 0, 0, 5],
     columns = [507, 503, 495, 509, 383, 479, 510, 447, 255],
     rows = [511, 511, 511, 511, 511, 511, 511, 495, 16],
     subgrid = [511, 511, 511, 511, 511, 511, 483, 349, 190]\<rparr>"

text \<open>
  Inputs that \<^verbatim>\<open>readInput\<close> rejects: the 5 of cell 13 stands already in its column and
  subgrid (cell 4) and in its row (cell 9); the 5 of cell 1 stands already in its row and
  subgrid (cell 0); the 5 of cell 10 stands already in its subgrid only (cell 0); cell 2
  holds a character that is neither a numeral nor a dash.
\<close>

definition dup_all_input :: string where
  "dup_all_input = ''----5----5---51111111111111111111111111111111111111111111111111111111111111111111''"

definition dup_row_input :: string where
  "dup_row_input = ''551111111111111111111111111111111111111111111111111111111111111111111111111111111''"

definition dup_sub_input :: string where
  "dup_sub_input = ''5---------51111111111111111111111111111111111111111111111111111111111111111111111''"

definition bad_char_input :: string where
  "bad_char_input = ''53+111111111111111111111111111111111111111111111111111111111111111111111111111111''"

text \<open>
  A puzzle whose search places the 3 of cell 70 and takes it back (cell 71 then has no
  candidate); a puzzle with two completions, which differ in the cells 22, 23, 49 and 50, and
  the state of its lesser completion; the state in which \<^verbatim>\<open>readInput\<close> stops on
  \<open>dup_row_input\<close>.
\<close>

definition undo_state :: sudoku where
  "undo_state =
    \<lparr>grid =
      [5, 3, 4, 6, 7, 8, 9, 1, 2, 6, 7, 2, 1, 9, 5, 3, 4, 8, 1, 9, 8, 3, 4, 2, 5, 6, 7,
      8, 5, 9, 7, 6, 1, 4, 2, 3, 4, 2, 6, 8, 5, 3, 7, 9, 1, 7, 1, 3, 9, 2, 4, 8, 5, 6,
      9, 6, 1, 5, 3, 7, 2, 8, 4, 2, 8, 7, 4, 1, 9, 6, 0, 0, 0, 0, 0, 0, 0, 0, 0, 0, 5],
     columns = [507, 503, 495, 509, 383, 479, 510, 443, 255],
     rows = [511, 511, 511, 511, 511, 511, 511, 491, 16],
     subgrid = [511, 511, 511, 511, 511, 511, 483, 349, 186]\<rparr>"

definition twin_input :: string where
  "twin_input = ''5346789126721953481983--5678597614234268537917139--856961537284287419635345286179''"

definition twin_state :: sudoku where
  "twin_state =
    \<lparr>grid =
      [5, 3, 4, 6, 7, 8, 9, 1, 2, 6, 7, 2, 1, 9, 5, 3, 4, 8, 1, 9, 8, 3, 0, 0, 5, 6, 7,
      8, 5, 9, 7, 6, 1, 4, 2, 3, 4, 2, 6, 8, 5, 3, 7, 9, 1, 7, 1, 3, 9, 0, 0, 8, 5, 6,
      9, 6, 1, 5, 3, 7, 2, 8, 4, 2, 8, 7, 4, 1, 9, 6, 3, 5, 3, 4, 5, 2, 8, 6, 1, 7, 9],
     columns = [511, 511, 511, 511, 501, 501, 511, 511, 511],
     rows = [511, 511, 501, 511, 511, 501, 511, 511, 511],
     subgrid = [511, 501, 511, 511, 501, 511, 511, 511, 511]\<rparr>"

definition twin_solved :: sudoku where
  "twin_solved =
    \<lparr>grid =
      [5, 3, 4, 6, 7, 8, 9, 1, 2, 6, 7, 2, 1, 9, 5, 3, 4, 8, 1, 9, 8, 3, 2, 4, 5, 6, 7,
      8, 5, 9, 7, 6, 1, 4, 2, 3, 4, 2, 6, 8, 5, 3, 7, 9, 1, 7, 1, 3, 9, 4, 2, 8, 5, 6,
      9, 6, 1, 5, 3, 7, 2, 8, 4, 2, 8, 7, 4, 1, 9, 6, 3, 5, 3, 4, 5, 2, 8, 6, 1, 7, 9],
     columns = [511, 511, 511, 511, 511, 511, 511, 511, 511],
     rows = [511, 511, 511, 511, 511, 511, 511, 511, 511],
     subgrid = [511, 511, 511, 511, 511, 511, 511, 511, 511]\<rparr>"


section \<open>Placing and removing a digit\<close>

lemma ninths_less: "p < 81 \<Longrightarrow> ninths ! p < 9"
proof -
  have "\<forall>p \<in> set [0..<81]. ninths ! p < 9"
    unfolding ninths_def by code_simp
  then show "p < 81 \<Longrightarrow> ninths ! p < 9" by simp
qed

lemma bit_set_bit9: "bit (set_bit i (w::bitset9)) j \<longleftrightarrow> bit w j \<or> (i = j \<and> j < 9)"
  by (simp add: bit_simps)

lemma family_place:
  fixes xs :: "bitset9 list" and g :: "int list"
  assumes sync: "\<forall>u<9. \<forall>j<9. bit (xs ! u) j \<longleftrightarrow> (\<exists>q<n. f q = u \<and> g ! q = int j + 1)"
    and len: "length xs = 9" "length g = 81" "n \<le> 81"
    and p: "p < 81" "f p < 9" "p < n \<longrightarrow> g ! p = 0"
    and n': "\<And>q. q < n' \<longleftrightarrow> q < n \<or> q = p"
  shows "\<forall>u<9. \<forall>j<9. bit (xs[f p := set_bit i (xs ! f p)] ! u) j
           \<longleftrightarrow> (\<exists>q<n'. f q = u \<and> g[p := int i + 1] ! q = int j + 1)"
proof (intro allI impI)
  fix u j :: nat
  assume u: "u < 9" and j: "j < 9"
  have lhs: "bit (xs[f p := set_bit i (xs ! f p)] ! u) j \<longleftrightarrow> bit (xs ! u) j \<or> (u = f p \<and> i = j)"
    using u j len p by (auto simp add: nth_list_update bit_set_bit9)
  have old: "bit (xs ! u) j \<longleftrightarrow> (\<exists>q<n. f q = u \<and> g ! q = int j + 1)"
    using sync u j by blast
  have rhs: "(\<exists>q<n'. f q = u \<and> g[p := int i + 1] ! q = int j + 1)
      \<longleftrightarrow> (\<exists>q<n. f q = u \<and> g ! q = int j + 1) \<or> (u = f p \<and> i = j)"
  proof
    assume "\<exists>q<n'. f q = u \<and> g[p := int i + 1] ! q = int j + 1"
    then obtain q where q: "q < n'" "f q = u" "g[p := int i + 1] ! q = int j + 1" by blast
    show "(\<exists>q<n. f q = u \<and> g ! q = int j + 1) \<or> (u = f p \<and> i = j)"
    proof (cases "q = p")
      case True
      with q len p show ?thesis by simp
    next
      case False
      with q n' have "q < n" "g ! q = int j + 1" by auto
      with q show ?thesis by blast
    qed
  next
    assume "(\<exists>q<n. f q = u \<and> g ! q = int j + 1) \<or> (u = f p \<and> i = j)"
    then show "\<exists>q<n'. f q = u \<and> g[p := int i + 1] ! q = int j + 1"
    proof
      assume "\<exists>q<n. f q = u \<and> g ! q = int j + 1"
      then obtain q where q: "q < n" "f q = u" "g ! q = int j + 1" by blast
      with p have "q \<noteq> p" by auto
      with q n' show ?thesis by (intro exI[of _ q]) simp
    next
      assume "u = f p \<and> i = j"
      with n' len p show ?thesis by (intro exI[of _ p]) simp
    qed
  qed
  show "bit (xs[f p := set_bit i (xs ! f p)] ! u) j
           \<longleftrightarrow> (\<exists>q<n'. f q = u \<and> g[p := int i + 1] ! q = int j + 1)"
    unfolding lhs old rhs ..
qed

lemma in_sync_iff:
  "in_sync n s \<longleftrightarrow>
     (\<forall>u<9. \<forall>j<9. bit (columns s ! u) j \<longleftrightarrow> (\<exists>q<n. q mod 9 = u \<and> grid s ! q = int j + 1)) \<and>
     (\<forall>u<9. \<forall>j<9. bit (rows s ! u) j \<longleftrightarrow> (\<exists>q<n. q div 9 = u \<and> grid s ! q = int j + 1)) \<and>
     (\<forall>u<9. \<forall>j<9. bit (subgrid s ! u) j \<longleftrightarrow> (\<exists>q<n. ninths ! q = u \<and> grid s ! q = int j + 1))"
  by (simp only: in_sync_def ball_conj_distrib Ball_def Bex_def lessThan_iff)

lemma in_sync_place:
  assumes "in_sync n s" "sized s" "n \<le> 81" "p < 81" "p < n \<longrightarrow> grid s ! p = 0"
    and n': "\<And>q. q < n' \<longleftrightarrow> q < n \<or> q = p"
  shows "in_sync n' (place p i s)"
proof -
  have 1: "p mod 9 < 9" "p div 9 < 9" "ninths ! p < 9"
    using \<open>p < 81\<close> by (simp_all add: ninths_less)
  have len: "length (columns s) = 9" "length (rows s) = 9" "length (subgrid s) = 9" "length (grid s) = 81"
    using \<open>sized s\<close> by (simp_all add: sized_def)
  from assms(1) have s: 
     "\<forall>u<9. \<forall>j<9. bit (columns s ! u) j \<longleftrightarrow> (\<exists>q<n. q mod 9 = u \<and> grid s ! q = int j + 1)"
     "\<forall>u<9. \<forall>j<9. bit (rows s ! u) j \<longleftrightarrow> (\<exists>q<n. q div 9 = u \<and> grid s ! q = int j + 1)"
     "\<forall>u<9. \<forall>j<9. bit (subgrid s ! u) j \<longleftrightarrow> (\<exists>q<n. ninths ! q = u \<and> grid s ! q = int j + 1)"
    unfolding in_sync_iff by blast+
  note a = family_place[where f="\<lambda>q. q mod 9", OF s(1) len(1) len(4) \<open>n \<le> 81\<close> \<open>p < 81\<close> 1(1) assms(5) n']
  note b = family_place[where f="\<lambda>q. q div 9", OF s(2) len(2) len(4) \<open>n \<le> 81\<close> \<open>p < 81\<close> 1(2) assms(5) n']
  note c = family_place[where f="\<lambda>q. ninths ! q", OF s(3) len(3) len(4) \<open>n \<le> 81\<close> \<open>p < 81\<close> 1(3) assms(5) n']
  have sel: "columns (place p i s) = (columns s)[p mod 9 := set_bit i (columns s ! (p mod 9))]"
    "rows (place p i s) = (rows s)[p div 9 := set_bit i (rows s ! (p div 9))]"
    "subgrid (place p i s) = (subgrid s)[ninths ! p := set_bit i (subgrid s ! (ninths ! p))]"
    "grid (place p i s) = (grid s)[p := int i + 1]"
    by (simp_all add: place_def)
  show ?thesis
    unfolding in_sync_iff sel by (intro conjI a b c)
qed

lemma unique_place:
  assumes u: "unique n s" and sy: "in_sync n s" and sz: "sized s" and n: "n \<le> 81" and p: "p < 81"
    and e: "p < n \<longrightarrow> grid s ! p = 0" and i: "i < 9" and nb: "\<not> blocked p i s"
    and n': "\<And>q. q < n' \<longleftrightarrow> q < n \<or> q = p"
  shows "unique n' (place p i s)"
proof -
  have len: "length (grid s) = 81" using sz by (simp add: sized_def)
  have 1: "p mod 9 < 9" "p div 9 < 9" "ninths ! p < 9"
    using p by (simp_all add: ninths_less)
  have fresh: "grid s ! q \<noteq> int i + 1" if "q < n" "peers p q" for q
  proof
    assume eq: "grid s ! q = int i + 1"
    from that(2) consider "q mod 9 = p mod 9" | "q div 9 = p div 9" | "ninths ! q = ninths ! p"
      by (auto simp add: peers_def)
    then have "blocked p i s"
    proof cases
      case 1
      with sy i \<open>p mod 9 < 9\<close> that(1) eq have "bit (columns s ! (p mod 9)) i"
        unfolding in_sync_iff by blast
      then show ?thesis by (simp add: blocked_def)
    next
      case 2
      with sy i \<open>p div 9 < 9\<close> that(1) eq have "bit (rows s ! (p div 9)) i"
        unfolding in_sync_iff by blast
      then show ?thesis by (simp add: blocked_def)
    next
      case 3
      with sy i \<open>ninths ! p < 9\<close> that(1) eq have "bit (subgrid s ! (ninths ! p)) i"
        unfolding in_sync_iff by blast
      then show ?thesis by (simp add: blocked_def)
    qed
    with nb show False ..
  qed
  have g: "grid (place p i s) ! q = (if q = p then int i + 1 else grid s ! q)" if "q < n'" for q
    using that n' n p len by (auto simp add: place_def)
  show ?thesis
    unfolding unique_def
  proof (intro ballI impI)
    fix a b
    assume a: "a \<in> {..<n'}" and b: "b \<in> {..<n'}"
      and h: "0 < grid (place p i s) ! a \<and> peers a b"
    then have ab: "a < n'" "b < n'" "peers a b" "a \<noteq> b" by (auto simp add: peers_def)
    have sym: "peers b a" using ab(3) by (auto simp add: peers_def)
    show "grid (place p i s) ! a \<noteq> grid (place p i s) ! b"
    proof (cases "a = p")
      case True
      with ab n' have "b < n" "peers p b" by auto
      from fresh[OF this] True ab show ?thesis by (simp add: g)
    next
      case ap: False
      show ?thesis
      proof (cases "b = p")
        case True
        with ab n' sym have "a < n" "peers p a" by auto
        from fresh[OF this] True ab ap show ?thesis by (simp add: g)
      next
        case False
        with ap ab n' h have "a < n" "b < n" "0 < grid s ! a" by (auto simp add: g)
        with u ab(3) have "grid s ! a \<noteq> grid s ! b" unfolding unique_def by blast
        with ap False ab show ?thesis by (simp add: g)
      qed
    qed
  qed
qed

lemma in_range_place:
  assumes "in_range n s" "sized s" "n \<le> 81" "p < 81" "i < 9"
    and n': "\<And>q. q < n' \<longleftrightarrow> q < n \<or> q = p"
  shows "in_range n' (place p i s)"
  using assms(1-5) unfolding in_range_def sized_def place_def
  by (auto simp add: n' nth_list_update)

lemma sized_place [simp]: "sized (place p i s) = sized s"
  by (simp add: sized_def place_def)

lemma inv_upto_place:
  assumes "inv_upto n s" "n \<le> 81" "p < 81" "i < 9" "p < n \<longrightarrow> grid s ! p = 0" "\<not> blocked p i s"
    and n': "\<And>q. q < n' \<longleftrightarrow> q < n \<or> q = p"
  shows "inv_upto n' (place p i s)"
proof -
  from assms(1) have s: "sized s" "in_range n s" "in_sync n s" "unique n s"
    by (simp_all add: inv_upto_def)
  have "in_range n' (place p i s)"
    using s(2,1) assms(2-4) n' by (rule in_range_place)
  moreover have "in_sync n' (place p i s)"
    using s(3,1) assms(2,3,5) n' by (rule in_sync_place)
  moreover have "unique n' (place p i s)"
    using s(4,3,1) assms(2,3,5,4,6) n' by (rule unique_place)
  ultimately show ?thesis
    using s(1) by (simp add: inv_upto_def)
qed

lemma inv_place:
  assumes "inv s" "p < 81" "i < 9" "grid s ! p = 0" "\<not> blocked p i s"
  shows "inv (place p i s)"
proof -
  have "inv_upto 81 (place p i s)"
  proof (rule inv_upto_place)
    show "inv_upto 81 s" using assms(1) by (simp add: inv_def)
    show "\<And>q. q < 81 \<longleftrightarrow> q < 81 \<or> q = p" using assms(2) by auto
  qed (use assms in simp_all)
  then show ?thesis by (simp add: inv_def)
qed

lemma sized_unplace [simp]: "sized (unplace p i s) = sized s"
  by (simp add: sized_def unplace_def)

lemma unset_set_bit9: "\<not> bit w i \<Longrightarrow> unset_bit i (set_bit i w) = (w::bitset9)"
  by (rule bit_eqI) (auto simp add: bit_unset_bit_iff bit_set_bit_iff)

lemma upd_upd_nth: "xs[k := f (xs[k := a] ! k)] = xs[k := f a]"
  by (cases "k < length xs") (simp_all add: list_update_beyond)

lemma unplace_place:
  assumes "\<not> blocked p i s" "grid s ! p = 0"
  shows "unplace p i (place p i s) = s"
proof -
  from assms have "\<not> bit (columns s ! (p mod 9)) i" "\<not> bit (rows s ! (p div 9)) i"
    "\<not> bit (subgrid s ! (ninths ! p)) i"
    by (simp_all add: blocked_def)
  then have "(columns s)[p mod 9 := unset_bit i (set_bit i (columns s ! (p mod 9)))] = columns s"
    "(rows s)[p div 9 := unset_bit i (set_bit i (rows s ! (p div 9)))] = rows s"
    "(subgrid s)[ninths ! p := unset_bit i (set_bit i (subgrid s ! (ninths ! p)))] = subgrid s"
    by (simp_all add: unset_set_bit9)
  moreover have "(grid s)[p := 0] = grid s"
    using assms(2) by (metis list_update_id)
  ultimately show ?thesis
    by (simp add: unplace_def place_def upd_upd_nth)
qed

section \<open>The cases of solve and of its loop\<close>

lemma solve_81: "solve 81 s = Some (True, s)"
  by (subst solve.simps) simp

lemma solve_filled: "p < 81 \<Longrightarrow> 0 < grid s ! p \<Longrightarrow> solve p s = solve (p + 1) s"
  by (subst solve.simps) simp

lemma solve_empty: "p < 81 \<Longrightarrow> \<not> 0 < grid s ! p \<Longrightarrow> solve p s = try_from p 0 s"
  by (subst solve.simps) simp

lemma try_exit: "p < 81 \<Longrightarrow> \<not> i < 9 \<Longrightarrow> try_from p i s = Some (False, s)"
  by (subst try_from.simps) simp

lemma try_blocked:
  "p < 81 \<Longrightarrow> i < 9 \<Longrightarrow> blocked p i s \<Longrightarrow> try_from p i s = try_from p (i + 1) s"
  by (subst try_from.simps) simp

lemma try_True:
  "p < 81 \<Longrightarrow> i < 9 \<Longrightarrow> \<not> blocked p i s \<Longrightarrow> solve (p + 1) (place p i s) = Some (True, s')
    \<Longrightarrow> try_from p i s = Some (True, s')"
  by (subst try_from.simps) simp

lemma try_False:
  "p < 81 \<Longrightarrow> i < 9 \<Longrightarrow> \<not> blocked p i s \<Longrightarrow> solve (p + 1) (place p i s) = Some (False, s')
    \<Longrightarrow> try_from p i s = try_from p (i + 1) (unplace p i s')"
  by (subst try_from.simps) simp

lemma try_None:
  "p < 81 \<Longrightarrow> i < 9 \<Longrightarrow> \<not> blocked p i s \<Longrightarrow> solve (p + 1) (place p i s) = None
    \<Longrightarrow> try_from p i s = None"
  by (subst try_from.simps) simp

lemma solve_beyond: "81 < p \<Longrightarrow> solve p s = None"
  by (subst solve.simps) simp

lemma try_beyond: "81 \<le> p \<Longrightarrow> try_from p i s = None"
  by (subst try_from.simps) simp

lemma solve_cases_induct [case_names full beyond filled empty outside finish step attempt]:
  assumes full: "\<And>s. P 81 s"
    and beyond: "\<And>p s. 81 < p \<Longrightarrow> P p s"
    and filled: "\<And>p s. p < 81 \<Longrightarrow> 0 < grid s ! p \<Longrightarrow> P (p + 1) s \<Longrightarrow> P p s"
    and empty: "\<And>p s. p < 81 \<Longrightarrow> \<not> 0 < grid s ! p \<Longrightarrow> Q p 0 s \<Longrightarrow> P p s"
    and outside: "\<And>p i s. 81 \<le> p \<Longrightarrow> Q p i s"
    and finish: "\<And>p i s. p < 81 \<Longrightarrow> \<not> i < 9 \<Longrightarrow> Q p i s"
    and step: "\<And>p i s. p < 81 \<Longrightarrow> i < 9 \<Longrightarrow> blocked p i s \<Longrightarrow> Q p (i + 1) s \<Longrightarrow> Q p i s"
    and attempt: "\<And>p i s. p < 81 \<Longrightarrow> i < 9 \<Longrightarrow> \<not> blocked p i s \<Longrightarrow> P (p + 1) (place p i s)
      \<Longrightarrow> (\<And>s'. solve (p + 1) (place p i s) = Some (False, s') \<Longrightarrow> Q p (i + 1) (unplace p i s'))
      \<Longrightarrow> Q p i s"
  shows "P p s" and "Q p' i s'"
proof (induction p s and p' i s' rule: solve_try_from.induct)
  case (1 p s)
  consider "p = 81" | "81 < p" | "p < 81" "0 < grid s ! p" | "p < 81" "\<not> 0 < grid s ! p"
    by linarith
  then show ?case
  proof cases
    case 1
    then show ?thesis by (simp add: full)
  next
    case 2
    then show ?thesis by (rule beyond)
  next
    case 3
    with "1.IH"(1) show ?thesis by (auto intro: filled)
  next
    case 4
    with "1.IH"(2) show ?thesis by (auto intro: empty)
  qed
next
  case (2 p i s)
  consider "81 \<le> p" | "p < 81" "\<not> i < 9" | "p < 81" "i < 9" "blocked p i s"
    | "p < 81" "i < 9" "\<not> blocked p i s"
    by linarith
  then show ?case
  proof cases
    case 1
    then show ?thesis by (rule outside)
  next
    case 2
    then show ?thesis by (rule finish)
  next
    case 3
    with "2.IH"(1) show ?thesis by (auto intro: step)
  next
    case 4
    have a: "P (p + 1) (place p i s)"
      using 4 "2.IH"(2) by simp
    have b: "Q p (i + 1) (unplace p i t)" if "solve (p + 1) (place p i s) = Some (False, t)" for t
      using 4 that "2.IH"(3)[of "(False, t)" False t] by simp
    from 4 a b show ?thesis by (rule attempt)
  qed
qed

section \<open>Properties of solve\<close>

lemma solve_total_aux:
  shows "p \<le> 81 \<longrightarrow> (\<exists>b t. solve p s = Some (b, t))"
    and "p' < 81 \<longrightarrow> (\<exists>b t. try_from p' i s' = Some (b, t))"
proof (induction p s and p' i s' rule: solve_cases_induct)
  case (full s) then show ?case by (auto simp add: solve_81)
next
  case (beyond p s) then show ?case by simp
next
  case (filled p s) then show ?case by (auto simp add: solve_filled)
next
  case (empty p s) then show ?case by (auto simp add: solve_empty)
next
  case (outside p i s) then show ?case by simp
next
  case (finish p i s) then show ?case by (auto simp add: try_exit)
next
  case (step p i s) then show ?case by (auto simp add: try_blocked)
next
  case (attempt p i s)
  from attempt(1,4) obtain b t where r: "solve (p + 1) (place p i s) = Some (b, t)" by auto
  show ?case
  proof (cases b)
    case True
    with r attempt(1-3) show ?thesis by (auto simp add: try_True)
  next
    case False
    with r attempt(1-3) attempt(5)[of t] show ?thesis by (auto simp add: try_False)
  qed
qed

lemma inv_well_formed: "inv s \<Longrightarrow> well_formed s"
  by (simp add: inv_def inv_upto_def well_formed_def)

lemma well_formed_place:
  assumes "well_formed s" "p < 81" "i < 9"
  shows "well_formed (place p i s)"
proof -
  have "in_range 81 (place p i s)"
  proof (rule in_range_place)
    show "\<And>q. q < 81 \<longleftrightarrow> q < 81 \<or> q = p" using assms(2) by auto
  qed (use assms in \<open>simp_all add: well_formed_def\<close>)
  with assms(1) show ?thesis by (simp add: well_formed_def)
qed

lemma grid_place: "sized s \<Longrightarrow> p < 81 \<Longrightarrow> q < 81 \<Longrightarrow>
    grid (place p i s) ! q = (if q = p then int i + 1 else grid s ! q)"
  by (simp add: place_def sized_def nth_list_update)

lemma grid_unplace: "sized s \<Longrightarrow> p < 81 \<Longrightarrow> q < 81 \<Longrightarrow>
    grid (unplace p i s) ! q = (if q = p then 0 else grid s ! q)"
  by (simp add: unplace_def sized_def nth_list_update)

lemma solve_sized_aux:
  shows "\<forall>b t. solve p s = Some (b, t) \<longrightarrow> sized t = sized s"
    and "\<forall>b t. try_from p' i s' = Some (b, t) \<longrightarrow> sized t = sized s'"
proof (induction p s and p' i s' rule: solve_cases_induct)
  case (full s) then show ?case by (simp add: solve_81)
next
  case (beyond p s) then show ?case by (simp add: solve_beyond)
next
  case (filled p s) then show ?case by (simp add: solve_filled)
next
  case (empty p s) then show ?case by (simp add: solve_empty)
next
  case (outside p i s) then show ?case by (simp add: try_beyond)
next
  case (finish p i s) then show ?case by (simp add: try_exit)
next
  case (step p i s) then show ?case by (simp add: try_blocked)
next
  case (attempt p i s)
  show ?case
  proof (intro allI impI)
    fix b t assume r: "try_from p i s = Some (b, t)"
    show "sized t = sized s"
    proof (cases "solve (p + 1) (place p i s)")
      case None
      with attempt(1-3) r show ?thesis by (simp add: try_None)
    next
      case (Some x)
      obtain b2 t2 where x: "x = (b2, t2)" by (cases x)
      with Some attempt(4) have sz: "sized t2 = sized s" by simp
      show ?thesis
      proof (cases b2)
        case True
        with Some x attempt(1-3) r sz show ?thesis by (simp add: try_True)
      next
        case False
        with Some x attempt(1-3) have "try_from p i s = try_from p (i + 1) (unplace p i t2)"
          by (simp add: try_False)
        with r attempt(5)[of t2] Some x False sz show ?thesis by simp
      qed
    qed
  qed
qed

lemma solve_sized: "solve p s = Some (b, t) \<Longrightarrow> sized s \<Longrightarrow> sized t"
  using solve_sized_aux(1) by blast

text \<open>A failed call leaves the state as it found it.\<close>

lemma solve_restores_aux:
  shows "well_formed s \<longrightarrow> (\<forall>t. solve p s = Some (False, t) \<longrightarrow> t = s)"
    and "well_formed s' \<and> grid s' ! p' = 0 \<longrightarrow> (\<forall>t. try_from p' i s' = Some (False, t) \<longrightarrow> t = s')"
proof (induction p s and p' i s' rule: solve_cases_induct)
  case (full s) then show ?case by (simp add: solve_81)
next
  case (beyond p s) then show ?case by (simp add: solve_beyond)
next
  case (filled p s) then show ?case by (simp add: solve_filled)
next
  case (empty p s)
  show ?case
  proof (intro impI allI)
    fix t assume wf: "well_formed s" and r: "solve p s = Some (False, t)"
    from wf empty(1) have "0 \<le> grid s ! p" by (simp add: well_formed_def in_range_def)
    with empty(2) have "grid s ! p = 0" by simp
    with wf r empty show "t = s" by (simp add: solve_empty)
  qed
next
  case (outside p i s) then show ?case by (simp add: try_beyond)
next
  case (finish p i s) then show ?case by (simp add: try_exit)
next
  case (step p i s) then show ?case by (simp add: try_blocked)
next
  case (attempt p i s)
  show ?case
  proof (intro allI impI, elim conjE)
    fix t assume wf: "well_formed s" and e: "grid s ! p = 0" and r: "try_from p i s = Some (False, t)"
    have wfp: "well_formed (place p i s)"
      using wf attempt(1,2) by (rule well_formed_place)
    show "t = s"
    proof (cases "solve (p + 1) (place p i s)")
      case None
      with attempt(1-3) r show ?thesis by (simp add: try_None)
    next
      case (Some x)
      obtain b2 t2 where x: "x = (b2, t2)" by (cases x)
      show ?thesis
      proof (cases b2)
        case True
        with Some x attempt(1-3) r show ?thesis by (simp add: try_True)
      next
        case False
        with Some x have f: "solve (p + 1) (place p i s) = Some (False, t2)" by simp
        with attempt(4) wfp have "t2 = place p i s" by simp
        then have u: "unplace p i t2 = s"
          using attempt(3) e by (simp add: unplace_place)
        from f attempt(1-3) have "try_from p i s = try_from p (i + 1) (unplace p i t2)"
          by (simp add: try_False)
        with r u attempt(5)[OF f] wf e show ?thesis by simp
      qed
    qed
  qed
qed

lemma solve_restores: "well_formed s \<Longrightarrow> solve p s = Some (False, t) \<Longrightarrow> t = s"
  using solve_restores_aux(1) by blast

text \<open>A call never writes a cell that is filled when it starts.\<close>

lemma solve_frame_aux:
  shows "sized s \<longrightarrow> (\<forall>b t. solve p s = Some (b, t) \<longrightarrow>
            (\<forall>q<81. 0 < grid s ! q \<longrightarrow> grid t ! q = grid s ! q))"
    and "sized s' \<and> \<not> 0 < grid s' ! p' \<longrightarrow> (\<forall>b t. try_from p' i s' = Some (b, t) \<longrightarrow>
            (\<forall>q<81. 0 < grid s' ! q \<longrightarrow> grid t ! q = grid s' ! q))"
proof (induction p s and p' i s' rule: solve_cases_induct)
  case (full s) then show ?case by (simp add: solve_81)
next
  case (beyond p s) then show ?case by (simp add: solve_beyond)
next
  case (filled p s) then show ?case by (simp add: solve_filled)
next
  case (empty p s) then show ?case by (simp add: solve_empty)
next
  case (outside p i s) then show ?case by (simp add: try_beyond)
next
  case (finish p i s) then show ?case by (simp add: try_exit)
next
  case (step p i s) then show ?case by (simp add: try_blocked)
next
  case (attempt p i s)
  show ?case
  proof (intro allI impI, elim conjE)
    fix b t q
    assume sz: "sized s" and e: "\<not> 0 < grid s ! p" and r: "try_from p i s = Some (b, t)"
      and q: "q < 81" "0 < grid s ! q"
    from e q have qp: "q \<noteq> p" by auto
    have gq: "grid (place p i s) ! q = grid s ! q"
      using sz attempt(1) q qp by (simp add: grid_place)
    show "grid t ! q = grid s ! q"
    proof (cases "solve (p + 1) (place p i s)")
      case None
      with attempt(1-3) r show ?thesis by (simp add: try_None)
    next
      case (Some x)
      obtain b2 t2 where x: "x = (b2, t2)" by (cases x)
      with Some have f: "solve (p + 1) (place p i s) = Some (b2, t2)" by simp
      with attempt(4) sz q gq have t2: "grid t2 ! q = grid s ! q" by simp
      have sz2: "sized t2" using f sz by (auto dest: solve_sized)
      show ?thesis
      proof (cases b2)
        case True
        with f attempt(1-3) r t2 show ?thesis by (simp add: try_True)
      next
        case False
        with f have f': "solve (p + 1) (place p i s) = Some (False, t2)" by simp
        with attempt(1-3) r have r2: "try_from p (i + 1) (unplace p i t2) = Some (b, t)"
          by (simp add: try_False)
        have u: "grid (unplace p i t2) ! p = 0" "grid (unplace p i t2) ! q = grid t2 ! q"
          using sz2 attempt(1) q qp by (simp_all add: grid_unplace)
        have "sized (unplace p i t2) \<and> \<not> 0 < grid (unplace p i t2) ! p"
          using sz2 u by simp
        with attempt(5)[OF f'] r2 have
          "\<forall>q<81. 0 < grid (unplace p i t2) ! q \<longrightarrow> grid t ! q = grid (unplace p i t2) ! q"
          by blast
        with q u t2 show ?thesis by simp
      qed
    qed
  qed
qed

lemma solve_frame:
  "sized s \<Longrightarrow> solve p s = Some (b, t) \<Longrightarrow> q < 81 \<Longrightarrow> 0 < grid s ! q \<Longrightarrow> grid t ! q = grid s ! q"
  using solve_frame_aux(1) by blast

text \<open>A successful call from position \<open>p\<close> leaves every cell from \<open>p\<close> on filled.\<close>

lemma solve_fills_aux:
  shows "sized s \<longrightarrow> (\<forall>t. solve p s = Some (True, t) \<longrightarrow> (\<forall>q<81. p \<le> q \<longrightarrow> 0 < grid t ! q))"
    and "sized s' \<longrightarrow> (\<forall>t. try_from p' i s' = Some (True, t) \<longrightarrow> (\<forall>q<81. p' \<le> q \<longrightarrow> 0 < grid t ! q))"
proof (induction p s and p' i s' rule: solve_cases_induct)
  case (full s) then show ?case by (simp add: solve_81)
next
  case (beyond p s) then show ?case by (simp add: solve_beyond)
next
  case (filled p s)
  show ?case
  proof (intro allI impI)
    fix t q assume sz: "sized s" and r: "solve p s = Some (True, t)" and q: "q < 81" "p \<le> q"
    from r filled(1,2) have r': "solve (p + 1) s = Some (True, t)" by (simp add: solve_filled)
    show "0 < grid t ! q"
    proof (cases "q = p")
      case True
      with solve_frame[OF sz r' filled(1) filled(2)] filled(2) show ?thesis by simp
    next
      case False
      with q have "p + 1 \<le> q" by simp
      with filled(3) sz r' q show ?thesis by blast
    qed
  qed
next
  case (empty p s) then show ?case by (simp add: solve_empty)
next
  case (outside p i s) then show ?case by (simp add: try_beyond)
next
  case (finish p i s) then show ?case by (simp add: try_exit)
next
  case (step p i s) then show ?case by (simp add: try_blocked)
next
  case (attempt p i s)
  show ?case
  proof (intro allI impI)
    fix t q assume sz: "sized s" and r: "try_from p i s = Some (True, t)" and q: "q < 81" "p \<le> q"
    show "0 < grid t ! q"
    proof (cases "solve (p + 1) (place p i s)")
      case None
      with attempt(1-3) r show ?thesis by (simp add: try_None)
    next
      case (Some x)
      obtain b2 t2 where x: "x = (b2, t2)" by (cases x)
      with Some have f: "solve (p + 1) (place p i s) = Some (b2, t2)" by simp
      have sz2: "sized t2" using f sz by (auto dest: solve_sized)
      show ?thesis
      proof (cases b2)
        case True
        with f attempt(1-3) r have tt: "t2 = t" by (simp add: try_True)
        show ?thesis
        proof (cases "q = p")
          case qp: True
          have pos: "0 < grid (place p i s) ! p" using sz attempt(1) by (simp add: grid_place)
          have szp: "sized (place p i s)" using sz by simp
          have "grid t2 ! p = grid (place p i s) ! p"
            using szp f attempt(1) pos by (rule solve_frame)
          with pos qp tt show ?thesis by simp
        next
          case False
          with q have pq: "p + 1 \<le> q" by simp
          have szp: "sized (place p i s)" using sz by simp
          from f True tt have "solve (p + 1) (place p i s) = Some (True, t)" by simp
          with attempt(4) szp q(1) pq show ?thesis by blast
        qed
      next
        case False
        with f have f': "solve (p + 1) (place p i s) = Some (False, t2)" by simp
        with attempt(1-3) r have r2: "try_from p (i + 1) (unplace p i t2) = Some (True, t)"
          by (simp add: try_False)
        have "sized (unplace p i t2)" using sz2 by simp
        with attempt(5)[OF f'] r2 q show ?thesis by blast
      qed
    qed
  qed
qed

lemma solve_fills:
  "sized s \<Longrightarrow> solve p s = Some (True, t) \<Longrightarrow> q < 81 \<Longrightarrow> p \<le> q \<Longrightarrow> 0 < grid t ! q"
  using solve_fills_aux(1) by blast

text \<open>Every call preserves the invariant.\<close>

lemma solve_inv_aux:
  shows "inv s \<longrightarrow> (\<forall>b t. solve p s = Some (b, t) \<longrightarrow> inv t)"
    and "inv s' \<and> grid s' ! p' = 0 \<longrightarrow> (\<forall>b t. try_from p' i s' = Some (b, t) \<longrightarrow> inv t)"
proof (induction p s and p' i s' rule: solve_cases_induct)
  case (full s) then show ?case by (simp add: solve_81)
next
  case (beyond p s) then show ?case by (simp add: solve_beyond)
next
  case (filled p s) then show ?case by (simp add: solve_filled)
next
  case (empty p s)
  show ?case
  proof (intro impI allI)
    fix b t assume i: "inv s" and r: "solve p s = Some (b, t)"
    from i empty(1) have "0 \<le> grid s ! p" by (simp add: inv_def inv_upto_def in_range_def)
    with empty(2) have "grid s ! p = 0" by simp
    with i r empty show "inv t" by (simp add: solve_empty)
  qed
next
  case (outside p i s) then show ?case by (simp add: try_beyond)
next
  case (finish p i s) then show ?case by (simp add: try_exit)
next
  case (step p i s) then show ?case by (simp add: try_blocked)
next
  case (attempt p i s)
  show ?case
  proof (intro allI impI, elim conjE)
    fix b t assume iv: "inv s" and e: "grid s ! p = 0" and r: "try_from p i s = Some (b, t)"
    have ivp: "inv (place p i s)"
      using iv attempt(1,2) e attempt(3) by (rule inv_place)
    show "inv t"
    proof (cases "solve (p + 1) (place p i s)")
      case None
      with attempt(1-3) r show ?thesis by (simp add: try_None)
    next
      case (Some x)
      obtain b2 t2 where x: "x = (b2, t2)" by (cases x)
      with Some have f: "solve (p + 1) (place p i s) = Some (b2, t2)" by simp
      from attempt(4) ivp f have iv2: "inv t2" by blast
      show ?thesis
      proof (cases b2)
        case True
        with f attempt(1-3) r have "t = t2" by (simp add: try_True)
        with iv2 show ?thesis by simp
      next
        case False
        with f have f': "solve (p + 1) (place p i s) = Some (False, t2)" by simp
        have "t2 = place p i s"
          using inv_well_formed[OF ivp] f' by (rule solve_restores)
        then have u: "unplace p i t2 = s"
          using attempt(3) e by (simp add: unplace_place)
        from f' attempt(1-3) r have "try_from p (i + 1) (unplace p i t2) = Some (b, t)"
          by (simp add: try_False)
        with u attempt(5)[OF f'] iv e show ?thesis by auto
      qed
    qed
  qed
qed

lemma solve_inv: "inv s \<Longrightarrow> solve p s = Some (b, t) \<Longrightarrow> inv t"
  using solve_inv_aux(1) by blast

section \<open>The search is sound, complete and finds the least completion\<close>

lemma completionD:
  assumes "completion s g"
  shows "length g = 81"
    and "\<And>q. q < 81 \<Longrightarrow> 1 \<le> g ! q \<and> g ! q \<le> 9"
    and "\<And>p q. p < 81 \<Longrightarrow> q < 81 \<Longrightarrow> peers p q \<Longrightarrow> g ! p \<noteq> g ! q"
    and "\<And>q. q < 81 \<Longrightarrow> 0 < grid s ! q \<Longrightarrow> g ! q = grid s ! q"
  using assms by (auto simp add: completion_def valid_grid_def)

text \<open>A blocked digit is the digit of a filled peer, so no completion puts it at \<open>p\<close>.\<close>

lemma in_syncD:
  assumes "in_sync n s" "u < 9" "j < 9"
  shows "bit (columns s ! u) j \<Longrightarrow> \<exists>q<n. q mod 9 = u \<and> grid s ! q = int j + 1"
    and "bit (rows s ! u) j \<Longrightarrow> \<exists>q<n. q div 9 = u \<and> grid s ! q = int j + 1"
    and "bit (subgrid s ! u) j \<Longrightarrow> \<exists>q<n. ninths ! q = u \<and> grid s ! q = int j + 1"
  using assms unfolding in_sync_iff by simp_all

lemma blocked_peer:
  assumes iv: "inv s" and p: "p < 81" and i: "i < 9" and b: "blocked p i s" and e: "grid s ! p = 0"
  shows "\<exists>q<81. peers p q \<and> grid s ! q = int i + 1"
proof -
  have sy: "in_sync 81 s" using iv by (simp add: inv_def inv_upto_def)
  have lt: "p mod 9 < 9" "p div 9 < 9" "ninths ! p < 9"
    using p by (simp_all add: ninths_less)
  from b consider "bit (columns s ! (p mod 9)) i" | "bit (rows s ! (p div 9)) i"
    | "bit (subgrid s ! (ninths ! p)) i"
    by (auto simp add: blocked_def)
  then have "\<exists>q<81. grid s ! q = int i + 1 \<and>
    (q mod 9 = p mod 9 \<or> q div 9 = p div 9 \<or> ninths ! q = ninths ! p)"
  proof cases
    case 1
    from in_syncD(1)[OF sy lt(1) i this] show ?thesis by blast
  next
    case 2
    from in_syncD(2)[OF sy lt(2) i this] show ?thesis by blast
  next
    case 3
    from in_syncD(3)[OF sy lt(3) i this] show ?thesis by blast
  qed
  then obtain q where q: "q < 81" "grid s ! q = int i + 1"
    "q mod 9 = p mod 9 \<or> q div 9 = p div 9 \<or> ninths ! q = ninths ! p"
    by blast
  from q(2) e have "q \<noteq> p" by auto
  with q have "peers p q" by (auto simp add: peers_def)
  with q show ?thesis by blast
qed

lemma blocked_excludes:
  assumes "inv s" "p < 81" "i < 9" "blocked p i s" "grid s ! p = 0" "completion s g"
  shows "g ! p \<noteq> int i + 1"
proof -
  from blocked_peer[OF assms(1-5)] obtain q where q: "q < 81" "peers p q" "grid s ! q = int i + 1"
    by blast
  then have "g ! q = int i + 1"
    using completionD(4)[OF assms(6), of q] by simp
  with completionD(3)[OF assms(6) assms(2) q(1) q(2)] show ?thesis by simp
qed

lemma completion_place:
  assumes sz: "sized s" and p: "p < 81" and c: "completion s g" and d: "g ! p = int i + 1"
  shows "completion (place p i s) g"
  unfolding completion_def
proof (intro conjI ballI impI)
  show "valid_grid g" using c by (simp add: completion_def)
next
  fix q assume "q \<in> {..<81}" and f: "0 < grid (place p i s) ! q"
  then have q: "q < 81" by simp
  show "g ! q = grid (place p i s) ! q"
  proof (cases "q = p")
    case True
    with sz p d show ?thesis by (simp add: grid_place)
  next
    case False
    with sz p q f have "0 < grid s ! q" "grid (place p i s) ! q = grid s ! q"
      by (simp_all add: grid_place)
    with completionD(4)[OF c q] show ?thesis by simp
  qed
qed

lemma drop_le_step:
  fixes xs ys :: "int list"
  assumes "length xs = 81" "length ys = 81" "p < 81"
    and "xs ! p < ys ! p \<or> (xs ! p = ys ! p \<and> drop (p + 1) xs \<le> drop (p + 1) ys)"
  shows "drop p xs \<le> drop p ys"
proof -
  have "xs ! p # drop (Suc p) xs \<le> ys ! p # drop (Suc p) ys"
    using assms(4) by simp
  then show ?thesis
    using assms(1-3) by (simp only: Cons_nth_drop_Suc)
qed

lemma solve_search_aux:
  shows "inv s \<longrightarrow>
      (\<forall>t. solve p s = Some (False, t) \<longrightarrow> (\<forall>g. \<not> completion s g)) \<and>
      (\<forall>t. solve p s = Some (True, t) \<longrightarrow> (\<forall>g. completion s g \<longrightarrow> drop p (grid t) \<le> drop p g))"
    and "inv s' \<and> grid s' ! p' = 0 \<longrightarrow>
      (\<forall>t. try_from p' i s' = Some (False, t) \<longrightarrow> (\<forall>g. completion s' g \<longrightarrow> g ! p' < int i + 1)) \<and>
      (\<forall>t. try_from p' i s' = Some (True, t) \<longrightarrow>
         (\<forall>g. completion s' g \<longrightarrow> int i + 1 \<le> g ! p' \<longrightarrow> drop p' (grid t) \<le> drop p' g))"
proof (induction p s and p' i s' rule: solve_cases_induct)
  case (full s)
  show ?case
  proof (intro impI conjI allI)
    fix t g assume "inv s" "solve 81 s = Some (True, t)"
    then have "length (grid t) = 81"
      by (simp add: solve_81 inv_def inv_upto_def sized_def)
    then show "drop 81 (grid t) \<le> drop 81 g" by simp
  qed (simp add: solve_81)
next
  case (beyond p s) then show ?case by (simp add: solve_beyond)
next
  case (filled p s)
  show ?case
  proof (intro impI conjI allI)
    fix t g assume iv: "inv s" and r: "solve p s = Some (False, t)"
    with filled show "\<not> completion s g" by (simp add: solve_filled)
  next
    fix t g assume iv: "inv s" and r: "solve p s = Some (True, t)" and c: "completion s g"
    have sz: "sized s" using iv by (simp add: inv_def inv_upto_def)
    from r filled(1,2) have r': "solve (p + 1) s = Some (True, t)" by (simp add: solve_filled)
    with filled(3) iv c have le: "drop (p + 1) (grid t) \<le> drop (p + 1) g" by blast
    have "grid t ! p = grid s ! p" using sz r' filled(1,2) by (rule solve_frame)
    moreover have "g ! p = grid s ! p" using completionD(4)[OF c filled(1) filled(2)] .
    moreover have "length (grid t) = 81" using solve_sized[OF r' sz] by (simp add: sized_def)
    moreover have "length g = 81" using completionD(1)[OF c] .
    ultimately show "drop p (grid t) \<le> drop p g"
      using le filled(1) by (intro drop_le_step) simp_all
  qed
next
  case (empty p s)
  show ?case
  proof (intro impI)
    assume iv: "inv s"
    from iv empty(1) have "0 \<le> grid s ! p" by (simp add: inv_def inv_upto_def in_range_def)
    with empty(2) have e: "grid s ! p = 0" by simp
    have one: "int 0 + 1 \<le> g ! p" if "completion s g" for g
      using completionD(2)[OF that empty(1)] by simp
    from empty(3) iv e have
      F: "\<forall>t. try_from p 0 s = Some (False, t) \<longrightarrow> (\<forall>g. completion s g \<longrightarrow> g ! p < int 0 + 1)"
      and T: "\<forall>t. try_from p 0 s = Some (True, t) \<longrightarrow>
         (\<forall>g. completion s g \<longrightarrow> int 0 + 1 \<le> g ! p \<longrightarrow> drop p (grid t) \<le> drop p g)"
      by blast+
    show "(\<forall>t. solve p s = Some (False, t) \<longrightarrow> (\<forall>g. \<not> completion s g)) \<and>
      (\<forall>t. solve p s = Some (True, t) \<longrightarrow> (\<forall>g. completion s g \<longrightarrow> drop p (grid t) \<le> drop p g))"
    proof (intro conjI allI impI)
      fix t g assume "solve p s = Some (False, t)"
      with empty(1,2) have "try_from p 0 s = Some (False, t)" by (simp add: solve_empty)
      with F have "completion s g \<longrightarrow> g ! p < int 0 + 1" by blast
      with one[of g] show "\<not> completion s g" by auto
    next
      fix t g assume "solve p s = Some (True, t)" and c: "completion s g"
      with empty(1,2) have "try_from p 0 s = Some (True, t)" by (simp add: solve_empty)
      with T c one[OF c] show "drop p (grid t) \<le> drop p g" by blast
    qed
  qed
next
  case (outside p i s) then show ?case by (simp add: try_beyond)
next
  case (finish p i s)
  show ?case
  proof (intro impI conjI allI)
    fix t g assume "completion s g"
    from completionD(2)[OF this finish(1)] finish(2) show "g ! p < int i + 1" by simp
  next
    fix t g assume "try_from p i s = Some (True, t)"
    with finish show "drop p (grid t) \<le> drop p g" by (simp add: try_exit)
  qed
next
  case (step p i s)
  show ?case
  proof (intro impI, elim conjE)
    assume iv: "inv s" and e: "grid s ! p = 0"
    have ne: "g ! p \<noteq> int i + 1" if "completion s g" for g
      using iv step(1,2,3) e that by (rule blocked_excludes)
    from step(4) iv e have
      F: "\<forall>t. try_from p (i + 1) s = Some (False, t) \<longrightarrow>
            (\<forall>g. completion s g \<longrightarrow> g ! p < int (i + 1) + 1)"
      and T: "\<forall>t. try_from p (i + 1) s = Some (True, t) \<longrightarrow>
         (\<forall>g. completion s g \<longrightarrow> int (i + 1) + 1 \<le> g ! p \<longrightarrow> drop p (grid t) \<le> drop p g)"
      by blast+
    have eq: "try_from p i s = try_from p (i + 1) s"
      using step(1-3) by (rule try_blocked)
    show "(\<forall>t. try_from p i s = Some (False, t) \<longrightarrow> (\<forall>g. completion s g \<longrightarrow> g ! p < int i + 1)) \<and>
      (\<forall>t. try_from p i s = Some (True, t) \<longrightarrow>
         (\<forall>g. completion s g \<longrightarrow> int i + 1 \<le> g ! p \<longrightarrow> drop p (grid t) \<le> drop p g))"
    proof (intro conjI allI impI)
      fix t g assume r: "try_from p i s = Some (False, t)" and c: "completion s g"
      from r eq have "try_from p (i + 1) s = Some (False, t)" by simp
      with F c have "g ! p < int (i + 1) + 1" by blast
      with ne[OF c] show "g ! p < int i + 1" by simp
    next
      fix t g assume r: "try_from p i s = Some (True, t)" and c: "completion s g"
        and le: "int i + 1 \<le> g ! p"
      from r eq have r': "try_from p (i + 1) s = Some (True, t)" by simp
      from le ne[OF c] have "int (i + 1) + 1 \<le> g ! p" by simp
      with r' T c show "drop p (grid t) \<le> drop p g" by blast
    qed
  qed
next
  case (attempt p i s)
  show ?case
  proof (intro impI, elim conjE)
    assume iv: "inv s" and e: "grid s ! p = 0"
    have sz: "sized s" using iv by (simp add: inv_def inv_upto_def)
    have ivp: "inv (place p i s)"
      using iv attempt(1,2) e attempt(3) by (rule inv_place)
    obtain b2 t2 where f: "solve (p + 1) (place p i s) = Some (b2, t2)"
      using solve_total_aux(1)[of "p + 1" "place p i s"] attempt(1) by auto
    show "(\<forall>t. try_from p i s = Some (False, t) \<longrightarrow> (\<forall>g. completion s g \<longrightarrow> g ! p < int i + 1)) \<and>
      (\<forall>t. try_from p i s = Some (True, t) \<longrightarrow>
         (\<forall>g. completion s g \<longrightarrow> int i + 1 \<le> g ! p \<longrightarrow> drop p (grid t) \<le> drop p g))"
    proof (cases b2)
      case True
      with f have f': "solve (p + 1) (place p i s) = Some (True, t2)" by simp
      with attempt(1-3) have r: "try_from p i s = Some (True, t2)" by (simp add: try_True)
      have szp: "sized (place p i s)" using sz by simp
      have pos: "0 < grid (place p i s) ! p" using sz attempt(1) by (simp add: grid_place)
      have "grid t2 ! p = grid (place p i s) ! p"
        using szp f' attempt(1) pos by (rule solve_frame)
      then have tp: "grid t2 ! p = int i + 1" using sz attempt(1) by (simp add: grid_place)
      have len: "length (grid t2) = 81" using solve_sized[OF f' szp] by (simp add: sized_def)
      have "drop p (grid t2) \<le> drop p g" if c: "completion s g" and le: "int i + 1 \<le> g ! p" for g
      proof (rule drop_le_step[OF len completionD(1)[OF c] attempt(1)])
        show "grid t2 ! p < g ! p \<or> grid t2 ! p = g ! p \<and> drop (p + 1) (grid t2) \<le> drop (p + 1) g"
        proof (cases "g ! p = int i + 1")
          case True
          with sz attempt(1) c have "completion (place p i s) g" by (intro completion_place)
          with attempt(4) ivp f' have "drop (p + 1) (grid t2) \<le> drop (p + 1) g" by blast
          with True tp show ?thesis by simp
        next
          case False
          with le tp show ?thesis by simp
        qed
      qed
      with r show ?thesis by simp
    next
      case False
      with f have f': "solve (p + 1) (place p i s) = Some (False, t2)" by simp
      have "t2 = place p i s"
        using inv_well_formed[OF ivp] f' by (rule solve_restores)
      then have u: "unplace p i t2 = s"
        using attempt(3) e by (simp add: unplace_place)
      from f' attempt(1-3) have eq: "try_from p i s = try_from p (i + 1) s"
        using u by (simp add: try_False)
      from attempt(4) ivp f' have none: "\<not> completion (place p i s) g" for g by blast
      have ne: "g ! p \<noteq> int i + 1" if "completion s g" for g
        using none[of g] completion_place[OF sz attempt(1) that] by blast
      from attempt(5)[OF f'] u iv e have
        F: "\<forall>t. try_from p (i + 1) s = Some (False, t) \<longrightarrow>
              (\<forall>g. completion s g \<longrightarrow> g ! p < int (i + 1) + 1)"
        and T: "\<forall>t. try_from p (i + 1) s = Some (True, t) \<longrightarrow>
           (\<forall>g. completion s g \<longrightarrow> int (i + 1) + 1 \<le> g ! p \<longrightarrow> drop p (grid t) \<le> drop p g)"
        by simp_all
      show ?thesis
      proof (intro conjI allI impI)
        fix t g assume r: "try_from p i s = Some (False, t)" and c: "completion s g"
        from r eq have "try_from p (i + 1) s = Some (False, t)" by simp
        with F c have "g ! p < int (i + 1) + 1" by blast
        with ne[OF c] show "g ! p < int i + 1" by simp
      next
        fix t g assume r: "try_from p i s = Some (True, t)" and c: "completion s g"
          and le: "int i + 1 \<le> g ! p"
        from r eq have r': "try_from p (i + 1) s = Some (True, t)" by simp
        from le ne[OF c] have "int (i + 1) + 1 \<le> g ! p" by simp
        with r' T c show "drop p (grid t) \<le> drop p g" by blast
      qed
    qed
  qed
qed

lemma solve_False_no_completion:
  "inv s \<Longrightarrow> solve p s = Some (False, t) \<Longrightarrow> \<not> completion s g"
  using solve_search_aux(1) by blast

lemma solve_True_least:
  "inv s \<Longrightarrow> solve 0 s = Some (True, t) \<Longrightarrow> completion s g \<Longrightarrow> grid t \<le> g"
proof -
  assume "inv s" "solve 0 s = Some (True, t)" "completion s g"
  with solve_search_aux(1)[of s 0] have "drop 0 (grid t) \<le> drop 0 g" by blast
  then show ?thesis by simp
qed

text \<open>The grid of a successful run from position 0 is a completion of the state it started from.\<close>

lemma solve_True_completion:
  assumes iv: "inv s" and r: "solve 0 s = Some (True, t)"
  shows "completion s (grid t)"
proof -
  have sz: "sized s" using iv by (simp add: inv_def inv_upto_def)
  have ivt: "inv t" using iv r by (rule solve_inv)
  then have szt: "sized t" and rg: "in_range 81 t" and un: "unique 81 t"
    by (simp_all add: inv_def inv_upto_def)
  have pos: "0 < grid t ! q" if "q < 81" for q
    using sz r that by (rule solve_fills) simp
  have "valid_grid (grid t)"
    unfolding valid_grid_def
  proof (intro conjI ballI impI)
    show "length (grid t) = 81" using szt by (simp add: sized_def)
  next
    fix q :: nat assume "q \<in> {..<81}"
    then have q: "q < 81" by simp
    from pos[OF q] show "1 \<le> grid t ! q" by simp
    from rg q show "grid t ! q \<le> 9" by (simp add: in_range_def)
  next
    fix a b :: nat assume "a \<in> {..<81}" "b \<in> {..<81}" "peers a b"
    with un pos[of a] show "grid t ! a \<noteq> grid t ! b"
      unfolding unique_def by blast
  qed
  moreover have "grid t ! q = grid s ! q" if "q < 81" "0 < grid s ! q" for q
    using sz r that by (rule solve_frame)
  ultimately show ?thesis by (simp add: completion_def)
qed

section \<open>Properties of readInput\<close>

lemma num_of_range: "\<not> invalid_char c \<Longrightarrow> 0 \<le> num_of c \<and> num_of c \<le> 9"
  by (auto simp add: invalid_char_def num_of_def DASH_def NUMERAL_ZERO_def NUMERAL_NINE_def)

text \<open>The three outcomes of one iteration.\<close>

lemma readCell_invalid:
  "invalid_char (input ! i) \<Longrightarrow>
     readCell input i s = (Invalid (''Invalid input character ('' @ [input ! i] @ '')''), s)"
  by (simp add: readCell_def)

lemma readCell_empty:
  "\<not> invalid_char (input ! i) \<Longrightarrow> \<not> 0 < num_of (input ! i) \<Longrightarrow>
     readCell input i s = (Valid, s\<lparr>grid := (grid s)[i := num_of (input ! i)]\<rparr>)"
  by (simp add: readCell_def Let_def)

lemma blocked_grid_update [simp]: "blocked p i (s\<lparr>grid := g\<rparr>) = blocked p i s"
  by (simp add: blocked_def)

lemma readCell_placed:
  assumes "\<not> invalid_char (input ! i)" "0 < num_of (input ! i)"
    "\<not> blocked i (nat (num_of (input ! i) - 1)) s"
  shows "readCell input i s = (Valid, place i (nat (num_of (input ! i) - 1)) s)"
  using assms by (simp add: readCell_def Let_def blocked_def place_def)

lemma readCell_Valid_cases:
  assumes "readCell input i s = (Valid, s')"
  obtains (empty) "\<not> invalid_char (input ! i)" "num_of (input ! i) = 0"
      "s' = s\<lparr>grid := (grid s)[i := 0]\<rparr>"
    | (placed) "\<not> invalid_char (input ! i)" "0 < num_of (input ! i)"
      "\<not> blocked i (nat (num_of (input ! i) - 1)) s"
      "s' = place i (nat (num_of (input ! i) - 1)) s"
proof -
  have v: "\<not> invalid_char (input ! i)"
    using assms by (auto simp add: readCell_def)
  show thesis
  proof (cases "0 < num_of (input ! i)")
    case False
    with num_of_range[OF v] have z: "num_of (input ! i) = 0" by simp
    with v assms have "s' = s\<lparr>grid := (grid s)[i := 0]\<rparr>" by (simp add: readCell_empty)
    with v z show thesis by (rule empty)
  next
    case True
    have nb: "\<not> blocked i (nat (num_of (input ! i) - 1)) s"
      using assms v True by (auto simp add: readCell_def Let_def blocked_def split: if_splits)
    with v True assms have "s' = place i (nat (num_of (input ! i) - 1)) s"
      by (simp add: readCell_placed)
    with v True nb show thesis by (rule placed)
  qed
qed

text \<open>Writing 0 into the next cell keeps the invariant of the cells read so far.\<close>

lemma inv_upto_empty_cell:
  assumes iv: "inv_upto i s" and i: "i < 81"
  shows "inv_upto (Suc i) (s\<lparr>grid := (grid s)[i := 0]\<rparr>)"
proof -
  let ?s = "s\<lparr>grid := (grid s)[i := 0]\<rparr>"
  from iv have sz: "sized s" and rg: "in_range i s" and sy: "in_sync i s" and un: "unique i s"
    by (simp_all add: inv_upto_def)
  have len: "length (grid s) = 81" using sz by (simp add: sized_def)
  have g: "grid ?s ! q = (if q = i then 0 else grid s ! q)" if "q < 81" for q
    using that len i by (simp add: nth_list_update)
  have ex: "(\<exists>q<Suc i. f q = u \<and> grid ?s ! q = int j + 1) \<longleftrightarrow> (\<exists>q<i. f q = u \<and> grid s ! q = int j + 1)"
    for f :: "nat \<Rightarrow> nat" and u j
  proof
    assume "\<exists>q<Suc i. f q = u \<and> grid ?s ! q = int j + 1"
    then obtain q where q: "q < Suc i" "f q = u" "grid ?s ! q = int j + 1" by blast
    with i g[of q] have "q \<noteq> i" by auto
    with q i g[of q] have "q < i" "f q = u" "grid s ! q = int j + 1" by auto
    then show "\<exists>q<i. f q = u \<and> grid s ! q = int j + 1" by blast
  next
    assume "\<exists>q<i. f q = u \<and> grid s ! q = int j + 1"
    then obtain q where q: "q < i" "f q = u" "grid s ! q = int j + 1" by blast
    with i g[of q] show "\<exists>q<Suc i. f q = u \<and> grid ?s ! q = int j + 1"
      by (intro exI[of _ q]) simp
  qed
  have "sized ?s" using sz by (simp add: sized_def)
  moreover have "in_range (Suc i) ?s"
    using rg i g unfolding in_range_def by (auto simp add: less_Suc_eq)
  moreover have "in_sync (Suc i) ?s"
    using sy unfolding in_sync_iff ex by simp
  moreover have "unique (Suc i) ?s"
    unfolding unique_def
  proof (intro ballI impI)
    fix a b :: nat
    assume "a \<in> {..<Suc i}" "b \<in> {..<Suc i}" and h: "0 < grid ?s ! a \<and> peers a b"
    then have ab: "a < Suc i" "b < Suc i" by simp_all
    with i h g[of a] have ai: "a < i" "0 < grid s ! a" "grid ?s ! a = grid s ! a"
      by (auto simp add: less_Suc_eq split: if_splits)
    show "grid ?s ! a \<noteq> grid ?s ! b"
    proof (cases "b = i")
      case True
      with ai i g[of b] show ?thesis by simp
    next
      case False
      with ab have "b < i" by simp
      with un ai h have "grid s ! a \<noteq> grid s ! b" unfolding unique_def by blast
      with ai False ab i g[of b] show ?thesis by simp
    qed
  qed
  ultimately show ?thesis by (simp add: inv_upto_def)
qed

lemma readCell_inv_upto:
  assumes iv: "inv_upto i s" and i: "i < 81" and r: "readCell input i s = (Valid, s')"
  shows "inv_upto (Suc i) s'"
  using r
proof (cases rule: readCell_Valid_cases)
  case empty
  with inv_upto_empty_cell[OF iv i] show ?thesis by simp
next
  case placed
  from num_of_range[OF placed(1)] placed(2) have b: "nat (num_of (input ! i) - 1) < 9" by simp
  have "inv_upto (Suc i) (place i (nat (num_of (input ! i) - 1)) s)"
    using iv _ i b _ placed(3)
  proof (rule inv_upto_place)
    show "i \<le> 81" using i by simp
    show "i < i \<longrightarrow> grid s ! i = 0" by simp
    show "\<And>q. q < Suc i \<longleftrightarrow> q < i \<or> q = i" by auto
  qed
  with placed(4) show ?thesis by simp
qed

lemma readLoop_step:
  "i < n \<Longrightarrow> readCell input i s = (Valid, s') \<Longrightarrow> readLoop input i n s = readLoop input (i + 1) n s'"
  by (subst readLoop.simps) simp

lemma readLoop_fail:
  "i < n \<Longrightarrow> readCell input i s = (Invalid e, s') \<Longrightarrow> readLoop input i n s = (Invalid e, s')"
  by (subst readLoop.simps) simp

lemma readLoop_done: "\<not> i < n \<Longrightarrow> readLoop input i n s = (Valid, s)"
  by (subst readLoop.simps) simp

lemma readLoop_inv_upto:
  "inv_upto i s \<Longrightarrow> i \<le> n \<Longrightarrow> n \<le> 81 \<Longrightarrow> readLoop input i n s = (Valid, s') \<Longrightarrow> inv_upto n s'"
proof (induction input i n s rule: readLoop.induct)
  case (1 input i n s)
  note iv = "1.prems"(1) and le = "1.prems"(2) and n = "1.prems"(3) and l = "1.prems"(4)
  show ?case
  proof (cases "i < n")
    case False
    with iv le l show ?thesis by (simp add: readLoop_done)
  next
    case True
    obtain r t where c: "readCell input i s = (r, t)" by (cases "readCell input i s")
    show ?thesis
    proof (cases r)
      case Valid
      with c True l have l': "readLoop input (i + 1) n t = (Valid, s')"
        by (simp add: readLoop_step)
      have i: "i < 81" using True n by simp
      have "inv_upto (Suc i) t"
        using iv i c[unfolded Valid] by (rule readCell_inv_upto)
      with "1.IH"[OF True c[symmetric] Valid] l' True n show ?thesis by simp
    next
      case (Invalid e)
      with c True l show ?thesis by (simp add: readLoop_fail)
    qed
  qed
qed

lemma inv_upto_fresh: "length g = 81 \<Longrightarrow> inv_upto 0 (fresh g)"
  by (simp add: inv_upto_def sized_def fresh_def in_range_def in_sync_iff unique_def)

lemma readInput_inv:
  assumes "length g = 81" "readInput input (fresh g) = (Valid, s)"
  shows "inv s"
proof -
  from assms(2) have l: "readLoop input 0 81 (fresh g) = (Valid, s)"
    by (simp add: readInput_def split: if_splits)
  have "inv_upto 81 s"
    by (rule readLoop_inv_upto[OF inv_upto_fresh[OF assms(1)] _ _ l]) simp_all
  then show ?thesis by (simp add: inv_def)
qed

section \<open>The concrete puzzles\<close>

lemma example_read: "readInput example (fresh (replicate 81 0)) = (Valid, example_state)"
  by code_simp

lemma near_read: "readInput near_input (fresh (replicate 81 0)) = (Valid, near_state)"
  by code_simp

lemma dead_read: "readInput dead_input (fresh (replicate 81 0)) = (Valid, dead_state)"
  by code_simp

lemma example_inv: "inv example_state"
  by (rule readInput_inv[OF _ example_read]) simp

lemma near_inv: "inv near_state"
  by (rule readInput_inv[OF _ near_read]) simp

lemma dead_inv: "inv dead_state"
  by (rule readInput_inv[OF _ dead_read]) simp

lemma bit9_eval: "bit (w::bitset9) i \<longleftrightarrow> odd (w div 2 ^ i)"
  by (rule bit_iff_odd)

lemma set_bit9_eval: "set_bit i (w::bitset9) = w + of_bool (\<not> odd (w div 2 ^ i)) * 2 ^ i"
  by (simp add: set_bit_eq bit_iff_odd)

lemma unset_bit9_eval: "unset_bit i (w::bitset9) = w - of_bool (odd (w div 2 ^ i)) * 2 ^ i"
  by (simp add: unset_bit_eq bit_iff_odd)

lemmas solve_eval = solve.simps try_from.simps blocked_def place_def unplace_def ninths_def
  bit9_eval set_bit9_eval unset_bit9_eval

lemma near_solve: "solve 0 near_state = Some (True, solved_state)"
  by (simp add: solve_eval near_state_def solved_state_def)

lemma dead_solve: "solve 0 dead_state = Some (False, dead_state)"
  by (simp add: solve_eval dead_state_def)

lemma solve_full:
  "p \<le> 81 \<Longrightarrow> (\<forall>q<81. p \<le> q \<longrightarrow> 0 < grid s ! q) \<Longrightarrow> solve p s = Some (True, s)"
proof (induction "81 - p" arbitrary: p)
  case 0
  then show ?case by (simp add: solve_81)
next
  case (Suc k)
  then have p: "p < 81" by simp
  with Suc.prems have "0 < grid s ! p" by simp
  with p have "solve p s = solve (p + 1) s" by (rule solve_filled)
  moreover have "solve (p + 1) s = Some (True, s)"
  proof (rule Suc.hyps(1))
    show "k = 81 - (p + 1)" using Suc.hyps(2) by simp
    show "p + 1 \<le> 81" using p by simp
    show "\<forall>q<81. p + 1 \<le> q \<longrightarrow> 0 < grid s ! q" using Suc.prems(2) by simp
  qed
  ultimately show ?case by simp
qed

lemma well_formed_iff:
  "well_formed s \<longleftrightarrow> sized s \<and> list_all (\<lambda>x. 0 \<le> x \<and> x \<le> 9) (grid s)"
proof -
  have "in_range 81 s \<longleftrightarrow> list_all (\<lambda>x. 0 \<le> x \<and> x \<le> 9) (grid s)" if "length (grid s) = 81"
    using that by (auto simp add: in_range_def list_all_length)
  then show ?thesis by (auto simp add: well_formed_def sized_def)
qed

text \<open>The search on \<open>undo_state\<close>: the digits 1 and 2 are blocked at cell 70, 3 is placed and taken back.\<close>

lemma undo_well_formed: "well_formed undo_state"
  by (simp add: well_formed_iff sized_def undo_state_def)

lemma undo_solve: "map_option fst (solve 0 undo_state) = Some False"
  by (simp add: solve_eval undo_state_def)

lemma undo_placed:
  "grid undo_state ! 70 = 0 \<and> blocked 70 0 undo_state \<and> blocked 70 1 undo_state \<and>
   \<not> blocked 70 2 undo_state \<and> grid (place 70 2 undo_state) ! 70 = 3 \<and>
   solve 71 (place 70 2 undo_state) = Some (False, place 70 2 undo_state) \<and>
   unplace 70 2 (place 70 2 undo_state) = undo_state"
  by (simp add: solve_eval undo_state_def)

text \<open>The puzzle with two completions.\<close>

lemma twin_read: "readInput twin_input (fresh (replicate 81 0)) = (Valid, twin_state)"
  by code_simp

lemma twin_inv: "inv twin_state"
  by (rule readInput_inv[OF _ twin_read]) simp

lemma twin_solve: "solve 0 twin_state = Some (True, twin_solved)"
  by (simp add: solve_eval twin_state_def twin_solved_def)

lemma clues_agree:
  assumes "length (grid s) = 81" and "length g = 81"
    and "list_all2 (\<lambda>a b. 0 < a \<longrightarrow> b = a) (grid s) g"
  shows "\<forall>q\<in>{..<81}. 0 < grid s ! q \<longrightarrow> g ! q = grid s ! q"
  using assms by (simp add: list_all2_conv_all_nth)

lemma twin_other: "completion twin_state (grid solved_state)"
proof -
  have "completion near_state (grid solved_state)"
    using near_inv near_solve by (rule solve_True_completion)
  then have "valid_grid (grid solved_state)" by (simp add: completion_def)
  moreover have "\<forall>q\<in>{..<81}. 0 < grid twin_state ! q \<longrightarrow> grid solved_state ! q = grid twin_state ! q"
    by (rule clues_agree) (simp_all add: twin_state_def solved_state_def)
  ultimately show ?thesis by (simp add: completion_def)
qed

lemma twin_cells:
  "grid twin_solved \<noteq> grid solved_state" "grid twin_solved < grid solved_state"
  "grid twin_solved ! 22 = 2" "grid solved_state ! 22 = 4"
  by (simp_all add: twin_solved_def solved_state_def)



section \<open>The claims\<close>

text \<open>
  C2. If \<open>solve p s\<close> returns false on a solver state of the data model (81 cells, each 0 to
  9), the state it leaves is the state of the call: the grid and the three families of
  constraint sets are unchanged.
\<close>

theorem solve_false_restores_state:
  assumes "well_formed s" and "solve p s = Some (False, s')"
  shows "s' = s"
  using assms by (rule solve_restores)

theorem solve_false_restores_state_witness:
  "well_formed undo_state \<and> grid undo_state ! 70 = 0 \<and> \<not> blocked 70 2 undo_state \<and>
   grid (place 70 2 undo_state) ! 70 = 3 \<and>
   solve 71 (place 70 2 undo_state) = Some (False, place 70 2 undo_state) \<and>
   (\<exists>t. solve 0 undo_state = Some (False, t) \<and> t = undo_state)"
proof -
  obtain b t where r: "solve 0 undo_state = Some (b, t)"
    using solve_total_aux(1)[of 0 undo_state] by auto
  with undo_solve have r': "solve 0 undo_state = Some (False, t)" by simp
  from solve_false_restores_state[OF undo_well_formed r'] r' undo_well_formed undo_placed
  show ?thesis by simp
qed

text \<open>
  C9. \<open>solve\<close> never modifies a pre-filled cell: on a solver state of the data model, every
  cell that is nonzero at the call holds the same value at the return, whatever the result.
\<close>

theorem solve_keeps_filled_cells:
  assumes "well_formed s" and "solve p s = Some (b, t)" and "q < 81" and "grid s ! q \<noteq> 0"
  shows "grid t ! q = grid s ! q"
proof -
  from assms(1,3) have "0 \<le> grid s ! q" by (simp add: well_formed_def in_range_def)
  with assms(4) have "0 < grid s ! q" by simp
  moreover have "sized s" using assms(1) by (simp add: well_formed_def)
  ultimately show ?thesis using assms(2,3) by (intro solve_frame)
qed

theorem solve_keeps_filled_cells_witness:
  "well_formed near_state \<and> solve 0 near_state = Some (True, solved_state) \<and> (0::nat) < 81
    \<and> grid near_state ! 0 \<noteq> 0 \<and> grid solved_state ! 0 = grid near_state ! 0"
proof -
  have w: "well_formed near_state" using near_inv by (rule inv_well_formed)
  have n: "grid near_state ! 0 \<noteq> 0" by (simp add: near_state_def)
  from solve_keeps_filled_cells[OF w near_solve _ n] w near_solve n show ?thesis by simp
qed

text \<open>
  C7. Running the solver twice is idempotent: on a validated state, a second call on the
  state left by the first returns the same result and leaves the same state; after a first
  call that returned false this state is the original one.
\<close>

theorem solve_idempotent:
  assumes "inv s" and "solve 0 s = Some (b, t)"
  shows "solve 0 t = Some (b, t) \<and> (\<not> b \<longrightarrow> t = s)"
proof (cases b)
  case True
  have sz: "sized s" using assms(1) by (simp add: inv_def inv_upto_def)
  from assms(2) True have r: "solve 0 s = Some (True, t)" by simp
  have "\<forall>q<81. 0 \<le> q \<longrightarrow> 0 < grid t ! q"
    using solve_fills[OF sz r] by simp
  then have "solve 0 t = Some (True, t)" by (intro solve_full) simp_all
  with True show ?thesis by simp
next
  case False
  with assms(2) have "solve 0 s = Some (False, t)" by simp
  with inv_well_formed[OF assms(1)] have "t = s" by (rule solve_restores)
  with assms(2) False show ?thesis by simp
qed

theorem solve_idempotent_witness:
  "inv near_state \<and> solve 0 near_state = Some (True, solved_state)
     \<and> solve 0 solved_state = Some (True, solved_state)
   \<and> inv dead_state \<and> solve 0 dead_state = Some (False, dead_state)"
  using solve_idempotent[OF near_inv near_solve] solve_idempotent[OF dead_inv dead_solve]
    near_inv near_solve dead_inv dead_solve by simp

section \<open>The control points of a run\<close>

lemma trace_81: "solve_trace d 81 s = [(d, 81, s)]"
  by (subst solve_trace.simps) simp


lemma trace_filled:
  "p < 81 \<Longrightarrow> 0 < grid s ! p \<Longrightarrow> solve_trace d p s = (d, p, s) # solve_trace (d + 1) (p + 1) s"
  by (subst solve_trace.simps) simp

lemma trace_empty:
  "p < 81 \<Longrightarrow> \<not> 0 < grid s ! p \<Longrightarrow> solve_trace d p s = (d, p, s) # try_trace d p 0 s"
  by (subst solve_trace.simps) simp

lemma trace_exit: "p < 81 \<Longrightarrow> \<not> i < 9 \<Longrightarrow> try_trace d p i s = [(d, p, s)]"
  by (subst try_trace.simps) simp

lemma trace_blocked:
  "p < 81 \<Longrightarrow> i < 9 \<Longrightarrow> blocked p i s \<Longrightarrow> try_trace d p i s = (d, p, s) # try_trace d p (i + 1) s"
  by (subst try_trace.simps) simp

lemma trace_False:
  "p < 81 \<Longrightarrow> i < 9 \<Longrightarrow> \<not> blocked p i s \<Longrightarrow> solve (p + 1) (place p i s) = Some (False, s')
    \<Longrightarrow> try_trace d p i s =
        (d, p, s) # solve_trace (d + 1) (p + 1) (place p i s) @ try_trace d p (i + 1) (unplace p i s')"
  by (subst try_trace.simps) simp

lemma trace_True:
  "p < 81 \<Longrightarrow> i < 9 \<Longrightarrow> \<not> blocked p i s \<Longrightarrow> solve (p + 1) (place p i s) = Some (True, s')
    \<Longrightarrow> try_trace d p i s = (d, p, s) # solve_trace (d + 1) (p + 1) (place p i s)"
  by (subst try_trace.simps) simp

text \<open>The depth of a control point is bounded by the number of positions left.\<close>

lemma trace_depth_aux:
  shows "p \<le> 81 \<longrightarrow> (\<forall>d. \<forall>x\<in>set (solve_trace d p s). fst x + p \<le> d + 81)"
    and "p' < 81 \<longrightarrow> (\<forall>d. \<forall>x\<in>set (try_trace d p' i s'). fst x + p' \<le> d + 81)"
proof (induction p s and p' i s' rule: solve_cases_induct)
  case (full s) then show ?case by (simp add: trace_81)
next
  case (beyond p s) then show ?case by simp
next
  case (filled p s)
  have sub: "fst x + p \<le> d + 81" if "x \<in> set (solve_trace (d + 1) (p + 1) s)" for d x
  proof -
    from filled(1) have "p + 1 \<le> 81" by simp
    with filled(3) that have "fst x + (p + 1) \<le> (d + 1) + 81" by blast
    then show ?thesis by simp
  qed
  show ?case
  proof (intro impI allI ballI)
    fix d x assume "x \<in> set (solve_trace d p s)"
    with filled(1,2) have "x = (d, p, s) \<or> x \<in> set (solve_trace (d + 1) (p + 1) s)"
      by (simp add: trace_filled)
    with sub[of x d] filled(1) show "fst x + p \<le> d + 81" by auto
  qed
next
  case (empty p s)
  then show ?case by (simp add: trace_empty)
next
  case (outside p i s) then show ?case by simp
next
  case (finish p i s) then show ?case by (simp add: trace_exit)
next
  case (step p i s) then show ?case by (simp add: trace_blocked)
next
  case (attempt p i s)
  have sub: "fst x + p \<le> d + 81" if "x \<in> set (solve_trace (d + 1) (p + 1) (place p i s))" for d x
  proof -
    from attempt(1) have "p + 1 \<le> 81" by simp
    with attempt(4) that have "fst x + (p + 1) \<le> (d + 1) + 81" by blast
    then show ?thesis by simp
  qed
  obtain b2 t2 where f: "solve (p + 1) (place p i s) = Some (b2, t2)"
    using solve_total_aux(1)[of "p + 1" "place p i s"] attempt(1) by auto
  show ?case
  proof (intro impI allI ballI)
    fix d x assume x: "x \<in> set (try_trace d p i s)"
    show "fst x + p \<le> d + 81"
    proof (cases b2)
      case True
      with f attempt(1-3) have "try_trace d p i s = (d, p, s) # solve_trace (d + 1) (p + 1) (place p i s)"
        by (simp add: trace_True)
      with x have "x = (d, p, s) \<or> x \<in> set (solve_trace (d + 1) (p + 1) (place p i s))" by simp
      with sub[of x d] attempt(1) show ?thesis by auto
    next
      case False
      with f have f': "solve (p + 1) (place p i s) = Some (False, t2)" by simp
      with attempt(1-3) have "try_trace d p i s =
          (d, p, s) # solve_trace (d + 1) (p + 1) (place p i s) @ try_trace d p (i + 1) (unplace p i t2)"
        by (simp add: trace_False)
      with x consider "x = (d, p, s)" | "x \<in> set (solve_trace (d + 1) (p + 1) (place p i s))"
          | "x \<in> set (try_trace d p (i + 1) (unplace p i t2))" by auto
      then show ?thesis
      proof cases
        case 1
        with attempt(1) show ?thesis by simp
      next
        case 2
        then show ?thesis by (rule sub)
      next
        case 3
        with attempt(5)[OF f'] attempt(1) show ?thesis by blast
      qed
    qed
  qed
qed

lemma trace_depth: "p \<le> 81 \<Longrightarrow> x \<in> set (solve_trace 0 p s) \<Longrightarrow> fst x \<le> 81 - p"
proof -
  assume p: "p \<le> 81" and "x \<in> set (solve_trace 0 p s)"
  with trace_depth_aux(1)[of p s] have "fst x + p \<le> 0 + 81" by blast
  with p show ?thesis by simp
qed







text \<open>
  C4. \<open>solve p s\<close> terminates for every position \<open>p\<close> from 0 to 81 and every state: it returns
  a result, and every control point of the run lies at a recursion depth of at most
  \<open>81 - p\<close>. On a validated puzzle that has no completion, \<open>solve 0 s\<close> returns false (and
  leaves the state as it was).
\<close>

theorem solve_terminates:
  assumes "p \<le> 81"
  shows "(\<exists>b t. solve p s = Some (b, t)) \<and>
     (\<forall>x\<in>set (solve_trace 0 p s). fst x \<le> 81 - p) \<and>
     (p = 0 \<and> inv s \<and> (\<forall>g. \<not> completion s g) \<longrightarrow> solve p s = Some (False, s))"
proof (intro conjI impI ballI)
  show "\<exists>b t. solve p s = Some (b, t)"
    using solve_total_aux(1)[of p s] assms by simp
next
  fix x assume "x \<in> set (solve_trace 0 p s)"
  with assms show "fst x \<le> 81 - p" by (rule trace_depth)
next
  assume h: "p = 0 \<and> inv s \<and> (\<forall>g. \<not> completion s g)"
  obtain b t where r: "solve 0 s = Some (b, t)"
    using solve_total_aux(1)[of 0 s] by auto
  have "\<not> b"
  proof
    assume b
    with r h have "completion s (grid t)" by (auto intro: solve_True_completion)
    with h show False by blast
  qed
  with r have r': "solve 0 s = Some (False, t)" by simp
  with h have "t = s" by (auto dest: inv_well_formed solve_restores)
  with r' h show "solve p s = Some (False, s)" by simp
qed

theorem solve_terminates_witness:
  "(0::nat) \<le> 81 \<and> inv dead_state \<and> (\<forall>g. \<not> completion dead_state g) \<and>
   (\<exists>b t. solve 0 dead_state = Some (b, t)) \<and>
   list_all (\<lambda>x. fst x \<le> 81 - 0) (solve_trace 0 0 dead_state) \<and>
   solve 0 dead_state = Some (False, dead_state)"
proof -
  have none: "\<forall>g. \<not> completion dead_state g"
    using solve_False_no_completion[OF dead_inv dead_solve] by blast
  from solve_terminates[of 0 dead_state] dead_inv none show ?thesis
    by (auto simp add: list_all_iff)
qed

text \<open>
  C8. Whenever the validated grid has a valid completion, \<open>solve 0 s\<close> returns true and the
  grid it leaves is a completion that is least among all completions in the lexicographic
  order of the 81 cell digits in flat position order.
\<close>

theorem solve_finds_least_completion:
  assumes "inv s" and "completion s g"
  shows "\<exists>t. solve 0 s = Some (True, t) \<and> completion s (grid t) \<and>
     (\<forall>g'. completion s g' \<longrightarrow> grid t \<le> g')"
proof -
  obtain b t where r: "solve 0 s = Some (b, t)"
    using solve_total_aux(1)[of 0 s] by auto
  have b
  proof (rule ccontr)
    assume "\<not> b"
    with r have "solve 0 s = Some (False, t)" by simp
    from solve_False_no_completion[OF assms(1) this] assms(2) show False by blast
  qed
  with r have r': "solve 0 s = Some (True, t)" by simp
  have "completion s (grid t)" using assms(1) r' by (rule solve_True_completion)
  moreover have "\<forall>g'. completion s g' \<longrightarrow> grid t \<le> g'"
    using solve_True_least[OF assms(1) r'] by blast
  ultimately show ?thesis using r' by blast
qed

theorem solve_finds_least_completion_witness:
  "inv twin_state \<and> completion twin_state (grid solved_state) \<and>
   completion twin_state (grid twin_solved) \<and> grid twin_solved \<noteq> grid solved_state \<and>
   (\<exists>t. solve 0 twin_state = Some (True, t) \<and> completion twin_state (grid t) \<and>
      (\<forall>g'. completion twin_state g' \<longrightarrow> grid t \<le> g')) \<and>
   solve 0 twin_state = Some (True, twin_solved) \<and>
   grid twin_solved < grid solved_state \<and>
   grid twin_solved ! 22 = 2 \<and> grid solved_state ! 22 = 4"
proof -
  have c: "completion twin_state (grid twin_solved)"
    using twin_inv twin_solve by (rule solve_True_completion)
  note l = solve_finds_least_completion[OF twin_inv twin_other]
  show ?thesis
    using twin_inv twin_other c twin_cells(1) l twin_solve twin_cells(2,3,4)
    by (intro conjI) assumption+
qed

section \<open>What readInput has written when it stops\<close>

lemma readCell_grid:
  assumes "readCell input i s = (Valid, s')"
  shows "grid s' = (grid s)[i := num_of (input ! i)]"
  using assms
proof (cases rule: readCell_Valid_cases)
  case empty
  then show ?thesis by simp
next
  case placed
  then show ?thesis by (simp add: place_def)
qed

lemma readLoop_grid:
  "readLoop input i n s = (Valid, s') \<Longrightarrow> n \<le> length (grid s) \<Longrightarrow>
     length (grid s') = length (grid s) \<and>
     (\<forall>q<length (grid s). grid s' ! q = (if i \<le> q \<and> q < n then num_of (input ! q) else grid s ! q))"
proof (induction input i n s rule: readLoop.induct)
  case (1 input i n s)
  note l = "1.prems"(1) and n = "1.prems"(2)
  show ?case
  proof (cases "i < n")
    case False
    with l show ?thesis by (simp add: readLoop_done)
  next
    case True
    obtain r t where c: "readCell input i s = (r, t)" by (cases "readCell input i s")
    show ?thesis
    proof (cases r)
      case (Invalid e)
      with c True l show ?thesis by (simp add: readLoop_fail)
    next
      case Valid
      with c True l have l': "readLoop input (i + 1) n t = (Valid, s')"
        by (simp add: readLoop_step)
      from c Valid have g: "grid t = (grid s)[i := num_of (input ! i)]"
        by (simp add: readCell_grid)
      then have len: "length (grid t) = length (grid s)" by simp
      from "1.IH"[OF True c[symmetric] Valid l'] n len
      have ih: "length (grid s') = length (grid s)"
        "\<forall>q<length (grid s). grid s' ! q =
           (if i + 1 \<le> q \<and> q < n then num_of (input ! q) else grid t ! q)"
        by simp_all
      have "grid s' ! q = (if i \<le> q \<and> q < n then num_of (input ! q) else grid s ! q)"
        if q: "q < length (grid s)" for q
      proof (cases "q = i")
        case True
        with ih(2) q g \<open>i < n\<close> show ?thesis by simp
      next
        case False
        with ih(2) q g show ?thesis by auto
      qed
      with ih(1) show ?thesis by simp
    qed
  qed
qed

text \<open>The loop up to 81 passes through the head of every iteration \<open>k\<close> it reaches.\<close>

lemma readLoop_split:
  "readLoop input i k s = (Valid, sk) \<Longrightarrow> i \<le> k \<Longrightarrow> k \<le> n \<Longrightarrow>
     readLoop input i n s = readLoop input k n sk"
proof (induction input i k s rule: readLoop.induct)
  case (1 input i k s)
  note l = "1.prems"(1) and ik = "1.prems"(2) and kn = "1.prems"(3)
  show ?case
  proof (cases "i < k")
    case False
    with l ik show ?thesis by (simp add: readLoop_done)
  next
    case True
    obtain r t where c: "readCell input i s = (r, t)" by (cases "readCell input i s")
    show ?thesis
    proof (cases r)
      case (Invalid e)
      with c True l show ?thesis by (simp add: readLoop_fail)
    next
      case Valid
      with c True l have l': "readLoop input (i + 1) k t = (Valid, sk)"
        by (simp add: readLoop_step)
      from True kn have "i < n" by simp
      with c Valid have "readLoop input i n s = readLoop input (i + 1) n t"
        by (simp add: readLoop_step)
      moreover have "readLoop input (i + 1) n t = readLoop input k n sk"
        using "1.IH"[OF True c[symmetric] Valid l'] True kn by simp
      ultimately show ?thesis by simp
    qed
  qed
qed

text \<open>A failing loop fails in the body of one iteration, reached through successful ones.\<close>

lemma readLoop_failure_point:
  "readLoop input i n s = (Invalid e, s') \<Longrightarrow>
     \<exists>k t. i \<le> k \<and> k < n \<and> readLoop input i k s = (Valid, t) \<and> readCell input k t = (Invalid e, s')"
proof (induction input i n s rule: readLoop.induct)
  case (1 input i n s)
  note l = "1.prems"(1)
  show ?case
  proof (cases "i < n")
    case False
    with l show ?thesis by (simp add: readLoop_done)
  next
    case True
    obtain r t where c: "readCell input i s = (r, t)" by (cases "readCell input i s")
    show ?thesis
    proof (cases r)
      case (Invalid e0)
      with c True l have "e0 = e" "t = s'" by (simp_all add: readLoop_fail)
      with c Invalid have "readCell input i s = (Invalid e, s')" by simp
      moreover have "readLoop input i i s = (Valid, s)" by (simp add: readLoop_done)
      ultimately show ?thesis using True by blast
    next
      case Valid
      with c True l have l': "readLoop input (i + 1) n t = (Invalid e, s')"
        by (simp add: readLoop_step)
      from "1.IH"[OF True c[symmetric] Valid l'] obtain k t' where
        k: "i + 1 \<le> k" "k < n" "readLoop input (i + 1) k t = (Valid, t')"
          "readCell input k t' = (Invalid e, s')"
        by blast
      from k(1) have "i < k" by simp
      with c Valid k(3) have "readLoop input i k s = (Valid, t')"
        by (simp add: readLoop_step)
      with k show ?thesis by (intro exI[of _ k] exI[of _ t']) simp
    qed
  qed
qed

text \<open>The four ways in which the body of an iteration fails, in the order of the source.\<close>

lemma readCell_column:
  "\<not> invalid_char (input ! i) \<Longrightarrow> 0 < num_of (input ! i) \<Longrightarrow>
   bit (columns s ! (i mod 9)) (nat (num_of (input ! i) - 1)) \<Longrightarrow>
   readCell input i s =
     (Invalid (''The number '' @ to_string (num_of (input ! i))
        @ '' appears more than once in column '' @ to_string (int (i mod 9) + 1)),
      s\<lparr>grid := (grid s)[i := num_of (input ! i)]\<rparr>)"
  by (simp add: readCell_def Let_def)

lemma readCell_row:
  "\<not> invalid_char (input ! i) \<Longrightarrow> 0 < num_of (input ! i) \<Longrightarrow>
   \<not> bit (columns s ! (i mod 9)) (nat (num_of (input ! i) - 1)) \<Longrightarrow>
   bit (rows s ! (i div 9)) (nat (num_of (input ! i) - 1)) \<Longrightarrow>
   readCell input i s =
     (Invalid (''The number '' @ to_string (num_of (input ! i))
        @ '' appears more than once on row '' @ to_string (int (i div 9) + 1)),
      s\<lparr>grid := (grid s)[i := num_of (input ! i)]\<rparr>)"
  by (simp add: readCell_def Let_def)

lemma readCell_subgrid:
  "\<not> invalid_char (input ! i) \<Longrightarrow> 0 < num_of (input ! i) \<Longrightarrow>
   \<not> bit (columns s ! (i mod 9)) (nat (num_of (input ! i) - 1)) \<Longrightarrow>
   \<not> bit (rows s ! (i div 9)) (nat (num_of (input ! i) - 1)) \<Longrightarrow>
   bit (subgrid s ! (ninths ! i)) (nat (num_of (input ! i) - 1)) \<Longrightarrow>
   readCell input i s =
     (Invalid (''The number '' @ to_string (num_of (input ! i))
        @ '' appears more than once in subgrid '' @ to_string (int (i mod 9) + 1)),
      s\<lparr>grid := (grid s)[i := num_of (input ! i)]\<rparr>)"
  by (simp add: readCell_def Let_def)

lemma readCell_Invalid_state:
  assumes "readCell input i s = (Invalid e, s')"
  shows "(invalid_char (input ! i) \<and> s' = s) \<or>
     (\<not> invalid_char (input ! i) \<and> 0 < num_of (input ! i) \<and>
        s' = s\<lparr>grid := (grid s)[i := num_of (input ! i)]\<rparr>)"
  using assms by (auto simp add: readCell_def Let_def split: if_splits)

lemma in_sync_grid_update:
  assumes "in_sync i s"
  shows "in_sync i (s\<lparr>grid := (grid s)[i := v]\<rparr>)"
proof -
  have "(grid s)[i := v] ! q = grid s ! q" if "q < i" for q
    using that by simp
  then have "(\<exists>q<i. f q = u \<and> (grid s)[i := v] ! q = x) \<longleftrightarrow> (\<exists>q<i. f q = u \<and> grid s ! q = x)"
    for f :: "nat \<Rightarrow> nat" and u x
    by auto
  with assms show ?thesis unfolding in_sync_iff by simp
qed

text \<open>
  At the head of iteration \<open>i\<close>, reached from the state of \<^verbatim>\<open>main\<close>, the bits tested for
  the digit of cell \<open>i\<close> say whether an earlier cell of the column, row or subgrid holds it.
\<close>

lemma loop_head_facts:
  assumes g: "length g = 81" and i: "i < 81"
    and l: "readLoop input 0 i (fresh g) = (Valid, s)"
  shows "inv_upto i s" and "\<forall>q<i. grid s ! q = num_of (input ! q)"
    and "\<forall>q<81. i \<le> q \<longrightarrow> grid s ! q = g ! q"
proof -
  show "inv_upto i s"
    by (rule readLoop_inv_upto[OF inv_upto_fresh[OF g] _ _ l]) (use i in simp_all)
  have len: "length (grid (fresh g)) = 81" using g by (simp add: fresh_def)
  from readLoop_grid[OF l] i len
  have *: "\<forall>q<81. grid s ! q = (if 0 \<le> q \<and> q < i then num_of (input ! q) else grid (fresh g) ! q)"
    by simp
  from * i show "\<forall>q<i. grid s ! q = num_of (input ! q)" by simp
  from * show "\<forall>q<81. i \<le> q \<longrightarrow> grid s ! q = g ! q" by (simp add: fresh_def)
qed

lemma loop_head_bits:
  assumes g: "length g = 81" and i: "i < 81"
    and l: "readLoop input 0 i (fresh g) = (Valid, s)"
    and v: "\<not> invalid_char (input ! i)" and d: "0 < num_of (input ! i)"
  shows "bit (columns s ! (i mod 9)) (nat (num_of (input ! i) - 1)) \<longleftrightarrow>
      (\<exists>q<i. q mod 9 = i mod 9 \<and> num_of (input ! q) = num_of (input ! i))"
    and "bit (rows s ! (i div 9)) (nat (num_of (input ! i) - 1)) \<longleftrightarrow>
      (\<exists>q<i. q div 9 = i div 9 \<and> num_of (input ! q) = num_of (input ! i))"
    and "bit (subgrid s ! (ninths ! i)) (nat (num_of (input ! i) - 1)) \<longleftrightarrow>
      (\<exists>q<i. ninths ! q = ninths ! i \<and> num_of (input ! q) = num_of (input ! i))"
proof -
  let ?b = "nat (num_of (input ! i) - 1)"
  from num_of_range[OF v] d have b: "?b < 9" "int ?b + 1 = num_of (input ! i)" by simp_all
  have lt: "i mod 9 < 9" "i div 9 < 9" "ninths ! i < 9"
    using i by (simp_all add: ninths_less)
  from loop_head_facts[OF g i l] have sy: "in_sync i s"
    and gq: "\<forall>q<i. grid s ! q = num_of (input ! q)"
    by (simp_all add: inv_upto_def)
  from sy have s:
     "\<forall>u<9. \<forall>j<9. bit (columns s ! u) j \<longleftrightarrow> (\<exists>q<i. q mod 9 = u \<and> grid s ! q = int j + 1)"
     "\<forall>u<9. \<forall>j<9. bit (rows s ! u) j \<longleftrightarrow> (\<exists>q<i. q div 9 = u \<and> grid s ! q = int j + 1)"
     "\<forall>u<9. \<forall>j<9. bit (subgrid s ! u) j \<longleftrightarrow> (\<exists>q<i. ninths ! q = u \<and> grid s ! q = int j + 1)"
    unfolding in_sync_iff by blast+
  from s(1) lt(1) b have "bit (columns s ! (i mod 9)) ?b \<longleftrightarrow>
      (\<exists>q<i. q mod 9 = i mod 9 \<and> grid s ! q = num_of (input ! i))" by simp
  with gq show "bit (columns s ! (i mod 9)) ?b \<longleftrightarrow>
      (\<exists>q<i. q mod 9 = i mod 9 \<and> num_of (input ! q) = num_of (input ! i))" by auto
  from s(2) lt(2) b have "bit (rows s ! (i div 9)) ?b \<longleftrightarrow>
      (\<exists>q<i. q div 9 = i div 9 \<and> grid s ! q = num_of (input ! i))" by simp
  with gq show "bit (rows s ! (i div 9)) ?b \<longleftrightarrow>
      (\<exists>q<i. q div 9 = i div 9 \<and> num_of (input ! q) = num_of (input ! i))" by auto
  from s(3) lt(3) b have "bit (subgrid s ! (ninths ! i)) ?b \<longleftrightarrow>
      (\<exists>q<i. ninths ! q = ninths ! i \<and> grid s ! q = num_of (input ! i))" by simp
  with gq show "bit (subgrid s ! (ninths ! i)) ?b \<longleftrightarrow>
      (\<exists>q<i. ninths ! q = ninths ! i \<and> num_of (input ! q) = num_of (input ! i))" by auto
qed

text \<open>The result of \<^verbatim>\<open>readInput\<close> when the body of iteration \<open>i\<close> fails.\<close>

lemma readInput_fails_at:
  assumes "strlen input = 81" and "i < 81"
    and "readLoop input 0 i s0 = (Valid, s)" and "readCell input i s = (Invalid e, s')"
  shows "readInput input s0 = (Invalid e, s')"
proof -
  have "readLoop input 0 81 s0 = readLoop input i 81 s"
    using assms(3) by (rule readLoop_split) (use assms(2) in simp_all)
  also have "\<dots> = (Invalid e, s')" using assms(2,4) by (simp add: readLoop_fail)
  finally show ?thesis using assms(1) by (simp add: readInput_def)
qed

lemma dup_all_head: "fst (readLoop dup_all_input 0 13 (fresh (replicate 81 0))) = Valid"
  by code_simp

lemma dup_all_result:
  "fst (readInput dup_all_input (fresh (replicate 81 0)))
     = Invalid ''The number 5 appears more than once in column 5''"
  by code_simp

lemma dup_row_head: "fst (readLoop dup_row_input 0 1 (fresh (replicate 81 0))) = Valid"
  by code_simp

lemma dup_row_result:
  "fst (readInput dup_row_input (fresh (replicate 81 0)))
     = Invalid ''The number 5 appears more than once on row 1''"
  by code_simp

lemma dup_sub_head: "fst (readLoop dup_sub_input 0 10 (fresh (replicate 81 0))) = Valid"
  by code_simp

lemma dup_sub_result:
  "fst (readInput dup_sub_input (fresh (replicate 81 0)))
     = Invalid ''The number 5 appears more than once in subgrid 2''"
  by code_simp

lemma bad_char_result:
  "fst (readInput bad_char_input (fresh (replicate 81 0))) = Invalid ''Invalid input character (+)''"
  by code_simp

lemma strlen_inputs:
  "strlen dup_all_input = 81" "strlen dup_row_input = 81" "strlen dup_sub_input = 81"
  "strlen bad_char_input = 81"
  by code_simp+

lemma cells_inputs:
  "\<not> invalid_char (dup_all_input ! 13)" "num_of (dup_all_input ! 13) = 5"
  "num_of (dup_all_input ! 4) = 5" "num_of (dup_all_input ! 9) = 5"
  "\<not> invalid_char (dup_row_input ! 1)" "num_of (dup_row_input ! 1) = 5"
  "num_of (dup_row_input ! 0) = 5"
  "\<not> invalid_char (dup_sub_input ! 10)" "num_of (dup_sub_input ! 10) = 5"
  "num_of (dup_sub_input ! 0) = 5"
  by code_simp+


lemma fst_Valid_eq: "fst r = Valid \<Longrightarrow> r = (Valid, snd r)"
  by (cases r) simp

section \<open>The claims about readInput\<close>

text \<open>
  C5. When validation reaches a non-empty cell \<open>i\<close> whose digit an earlier cell already holds,
  the checks run in the order column, row, subgrid and \<^verbatim>\<open>readInput\<close> stops with the
  first violation: a digit already in the column gives the column error, also when the row
  or the subgrid holds it too; otherwise a digit already in the row gives the row error, also
  when the subgrid holds it too; otherwise a digit already in the subgrid gives the subgrid
  error.
\<close>

theorem duplicate_check_order:
  assumes "length g = 81" and "strlen input = 81" and "i < 81"
    and "readLoop input 0 i (fresh g) = (Valid, s)"
    and "\<not> invalid_char (input ! i)" and "0 < num_of (input ! i)"
  shows
    "((\<exists>q<i. q mod 9 = i mod 9 \<and> num_of (input ! q) = num_of (input ! i)) \<longrightarrow>
        fst (readInput input (fresh g)) =
          Invalid (''The number '' @ to_string (num_of (input ! i))
            @ '' appears more than once in column '' @ to_string (int (i mod 9) + 1))) \<and>
     (\<not> (\<exists>q<i. q mod 9 = i mod 9 \<and> num_of (input ! q) = num_of (input ! i)) \<and>
      (\<exists>q<i. q div 9 = i div 9 \<and> num_of (input ! q) = num_of (input ! i)) \<longrightarrow>
        fst (readInput input (fresh g)) =
          Invalid (''The number '' @ to_string (num_of (input ! i))
            @ '' appears more than once on row '' @ to_string (int (i div 9) + 1))) \<and>
     (\<not> (\<exists>q<i. q mod 9 = i mod 9 \<and> num_of (input ! q) = num_of (input ! i)) \<and>
      \<not> (\<exists>q<i. q div 9 = i div 9 \<and> num_of (input ! q) = num_of (input ! i)) \<and>
      (\<exists>q<i. ninths ! q = ninths ! i \<and> num_of (input ! q) = num_of (input ! i)) \<longrightarrow>
        fst (readInput input (fresh g)) =
          Invalid (''The number '' @ to_string (num_of (input ! i))
            @ '' appears more than once in subgrid '' @ to_string (int (i mod 9) + 1)))"
proof -
  note bits = loop_head_bits[OF assms(1,3,4,5,6)]
  note fails = readInput_fails_at[OF assms(2,3,4)]
  show ?thesis
  proof (intro conjI impI)
    assume "\<exists>q<i. q mod 9 = i mod 9 \<and> num_of (input ! q) = num_of (input ! i)"
    with bits(1) have "bit (columns s ! (i mod 9)) (nat (num_of (input ! i) - 1))" by simp
    from fails[OF readCell_column[OF assms(5,6) this]]
    show "fst (readInput input (fresh g)) =
          Invalid (''The number '' @ to_string (num_of (input ! i))
            @ '' appears more than once in column '' @ to_string (int (i mod 9) + 1))"
      by simp
  next
    assume "\<not> (\<exists>q<i. q mod 9 = i mod 9 \<and> num_of (input ! q) = num_of (input ! i)) \<and>
      (\<exists>q<i. q div 9 = i div 9 \<and> num_of (input ! q) = num_of (input ! i))"
    with bits(1,2) have "\<not> bit (columns s ! (i mod 9)) (nat (num_of (input ! i) - 1))"
      "bit (rows s ! (i div 9)) (nat (num_of (input ! i) - 1))" by simp_all
    from fails[OF readCell_row[OF assms(5,6) this]]
    show "fst (readInput input (fresh g)) =
          Invalid (''The number '' @ to_string (num_of (input ! i))
            @ '' appears more than once on row '' @ to_string (int (i div 9) + 1))"
      by simp
  next
    assume "\<not> (\<exists>q<i. q mod 9 = i mod 9 \<and> num_of (input ! q) = num_of (input ! i)) \<and>
      \<not> (\<exists>q<i. q div 9 = i div 9 \<and> num_of (input ! q) = num_of (input ! i)) \<and>
      (\<exists>q<i. ninths ! q = ninths ! i \<and> num_of (input ! q) = num_of (input ! i))"
    with bits have "\<not> bit (columns s ! (i mod 9)) (nat (num_of (input ! i) - 1))"
      "\<not> bit (rows s ! (i div 9)) (nat (num_of (input ! i) - 1))"
      "bit (subgrid s ! (ninths ! i)) (nat (num_of (input ! i) - 1))" by simp_all
    from fails[OF readCell_subgrid[OF assms(5,6) this]]
    show "fst (readInput input (fresh g)) =
          Invalid (''The number '' @ to_string (num_of (input ! i))
            @ '' appears more than once in subgrid '' @ to_string (int (i mod 9) + 1))"
      by simp
  qed
qed

theorem duplicate_check_order_witness:
  "length (replicate 81 (0::int)) = 81 \<and> strlen dup_all_input = 81 \<and> (13::nat) < 81 \<and>
   readLoop dup_all_input 0 13 (fresh (replicate 81 0))
     = (Valid, snd (readLoop dup_all_input 0 13 (fresh (replicate 81 0)))) \<and>
   \<not> invalid_char (dup_all_input ! 13) \<and> 0 < num_of (dup_all_input ! 13) \<and>
   (\<exists>q<13. q mod 9 = 13 mod 9 \<and> num_of (dup_all_input ! q) = num_of (dup_all_input ! 13)) \<and>
   (\<exists>q<13. q div 9 = 13 div 9 \<and> num_of (dup_all_input ! q) = num_of (dup_all_input ! 13)) \<and>
   (\<exists>q<13. ninths ! q = ninths ! 13 \<and> num_of (dup_all_input ! q) = num_of (dup_all_input ! 13)) \<and>
   fst (readInput dup_all_input (fresh (replicate 81 0))) =
     Invalid (''The number '' @ to_string (num_of (dup_all_input ! 13))
        @ '' appears more than once in column '' @ to_string (int (13 mod 9) + 1)) \<and>
   fst (readInput dup_all_input (fresh (replicate 81 0))) =
     Invalid ''The number 5 appears more than once in column 5''"
proof -
  have len: "length (replicate 81 (0::int)) = 81" by simp
  have lt: "(13::nat) < 81" by simp
  have head: "readLoop dup_all_input 0 13 (fresh (replicate 81 0))
      = (Valid, snd (readLoop dup_all_input 0 13 (fresh (replicate 81 0))))"
    using dup_all_head by (rule fst_Valid_eq)
  have pos: "0 < num_of (dup_all_input ! 13)" by (simp add: cells_inputs)
  have col: "\<exists>q<13. q mod 9 = 13 mod 9 \<and> num_of (dup_all_input ! q) = num_of (dup_all_input ! 13)"
    by (rule exI[of _ 4]) (simp add: cells_inputs)
  have row: "\<exists>q<13. q div 9 = 13 div 9 \<and> num_of (dup_all_input ! q) = num_of (dup_all_input ! 13)"
    by (rule exI[of _ 9]) (simp add: cells_inputs)
  have sub: "\<exists>q<13. ninths ! q = ninths ! 13 \<and> num_of (dup_all_input ! q) = num_of (dup_all_input ! 13)"
    by (rule exI[of _ 4]) (simp add: cells_inputs ninths_def)
  have r: "fst (readInput dup_all_input (fresh (replicate 81 0))) =
     Invalid (''The number '' @ to_string (num_of (dup_all_input ! 13))
        @ '' appears more than once in column '' @ to_string (int (13 mod 9) + 1))"
    using duplicate_check_order[OF len strlen_inputs(1) lt head cells_inputs(1) pos] col
    by blast
  show ?thesis
    using len strlen_inputs(1) lt head cells_inputs(1) pos col row sub r dup_all_result
    by (intro conjI) assumption+
qed

text \<open>
  C6. When validation fails because the digit of cell \<open>i\<close> stands already in its subgrid, and
  neither in its column nor in its row, the number at the end of the error message is the
  1-based column index \<open>i mod 9 + 1\<close> of the cell, not the index of the subgrid.
\<close>

theorem subgrid_error_reports_column_index:
  assumes "length g = 81" and "strlen input = 81" and "i < 81"
    and "readLoop input 0 i (fresh g) = (Valid, s)"
    and "\<not> invalid_char (input ! i)" and "0 < num_of (input ! i)"
    and "\<not> (\<exists>q<i. q mod 9 = i mod 9 \<and> num_of (input ! q) = num_of (input ! i))"
    and "\<not> (\<exists>q<i. q div 9 = i div 9 \<and> num_of (input ! q) = num_of (input ! i))"
    and "\<exists>q<i. ninths ! q = ninths ! i \<and> num_of (input ! q) = num_of (input ! i)"
  shows "fst (readInput input (fresh g)) =
     Invalid (''The number '' @ to_string (num_of (input ! i))
        @ '' appears more than once in subgrid '' @ to_string (int (i mod 9) + 1))"
proof -
  note bits = loop_head_bits[OF assms(1,3,4,5,6)]
  from bits assms(7,8,9) have "\<not> bit (columns s ! (i mod 9)) (nat (num_of (input ! i) - 1))"
    "\<not> bit (rows s ! (i div 9)) (nat (num_of (input ! i) - 1))"
    "bit (subgrid s ! (ninths ! i)) (nat (num_of (input ! i) - 1))" by simp_all
  from readInput_fails_at[OF assms(2,3,4) readCell_subgrid[OF assms(5,6) this]]
  show ?thesis by simp
qed

theorem subgrid_error_reports_column_index_witness:
  "length (replicate 81 (0::int)) = 81 \<and> strlen dup_sub_input = 81 \<and> (10::nat) < 81 \<and>
   readLoop dup_sub_input 0 10 (fresh (replicate 81 0))
     = (Valid, snd (readLoop dup_sub_input 0 10 (fresh (replicate 81 0)))) \<and>
   \<not> invalid_char (dup_sub_input ! 10) \<and> 0 < num_of (dup_sub_input ! 10) \<and>
   \<not> (\<exists>q<10. q mod 9 = 10 mod 9 \<and> num_of (dup_sub_input ! q) = num_of (dup_sub_input ! 10)) \<and>
   \<not> (\<exists>q<10. q div 9 = 10 div 9 \<and> num_of (dup_sub_input ! q) = num_of (dup_sub_input ! 10)) \<and>
   (\<exists>q<10. ninths ! q = ninths ! 10 \<and> num_of (dup_sub_input ! q) = num_of (dup_sub_input ! 10)) \<and>
   fst (readInput dup_sub_input (fresh (replicate 81 0))) =
     Invalid (''The number '' @ to_string (num_of (dup_sub_input ! 10))
        @ '' appears more than once in subgrid '' @ to_string (int (10 mod 9) + 1)) \<and>
   fst (readInput dup_sub_input (fresh (replicate 81 0))) =
     Invalid ''The number 5 appears more than once in subgrid 2'' \<and>
   ninths ! 10 = 0"
proof -
  have len: "length (replicate 81 (0::int)) = 81" by simp
  have lt: "(10::nat) < 81" by simp
  have head: "readLoop dup_sub_input 0 10 (fresh (replicate 81 0))
      = (Valid, snd (readLoop dup_sub_input 0 10 (fresh (replicate 81 0))))"
    using dup_sub_head by (rule fst_Valid_eq)
  have pos: "0 < num_of (dup_sub_input ! 10)" by (simp add: cells_inputs)
  have cells: "\<forall>q\<in>{..<10}. num_of (dup_sub_input ! q) = 5 \<longrightarrow> q = 0"
    by code_simp
  have col: "\<not> (\<exists>q<10. q mod 9 = 10 mod 9 \<and> num_of (dup_sub_input ! q) = num_of (dup_sub_input ! 10))"
    using cells by (auto simp add: cells_inputs)
  have row: "\<not> (\<exists>q<10. q div 9 = 10 div 9 \<and> num_of (dup_sub_input ! q) = num_of (dup_sub_input ! 10))"
    using cells by (auto simp add: cells_inputs)
  have sub: "\<exists>q<10. ninths ! q = ninths ! 10 \<and> num_of (dup_sub_input ! q) = num_of (dup_sub_input ! 10)"
    by (rule exI[of _ 0]) (simp add: cells_inputs ninths_def)
  have n: "ninths ! 10 = 0" by (simp add: ninths_def)
  have r: "fst (readInput dup_sub_input (fresh (replicate 81 0))) =
     Invalid (''The number '' @ to_string (num_of (dup_sub_input ! 10))
        @ '' appears more than once in subgrid '' @ to_string (int (10 mod 9) + 1))"
    using len strlen_inputs(3) lt head cells_inputs(8) pos col row sub
    by (rule subgrid_error_reports_column_index)
  show ?thesis
    using len strlen_inputs(3) lt head cells_inputs(8) pos col row sub r dup_sub_result n
    by (intro conjI) assumption+
qed

text \<open>
  C10. \<^verbatim>\<open>readInput\<close> is not atomic on failure. When it returns false on an input of length
  81 it has failed at some position \<open>i\<close>, on an invalid character or on a duplicate digit; the
  grid cells before \<open>i\<close> hold their parsed values, after a duplicate cell \<open>i\<close> holds the
  offending digit, and the constraint sets are in sync with exactly the cells before \<open>i\<close>.
  The later cells, and cell \<open>i\<close> itself after an invalid character, hold what the grid held
  before the call.
\<close>

theorem readInput_not_atomic:
  assumes "length g = 81" and "strlen input = 81"
    and "readInput input (fresh g) = (Invalid e, s')"
  shows "\<exists>i<81.
     (\<exists>s. readLoop input 0 i (fresh g) = (Valid, s) \<and> readCell input i s = (Invalid e, s')) \<and>
     (\<forall>q<i. grid s' ! q = num_of (input ! q)) \<and>
     (invalid_char (input ! i) \<longrightarrow> grid s' ! i = g ! i) \<and>
     (\<not> invalid_char (input ! i) \<longrightarrow> 0 < num_of (input ! i) \<and> grid s' ! i = num_of (input ! i)) \<and>
     (\<forall>q<81. i < q \<longrightarrow> grid s' ! q = g ! q) \<and>
     in_sync i s'"
proof -
  from assms(2,3) have "readLoop input 0 81 (fresh g) = (Invalid e, s')"
    by (simp add: readInput_def)
  from readLoop_failure_point[OF this] obtain i s where
    i: "i < 81" and l: "readLoop input 0 i (fresh g) = (Valid, s)"
    and c: "readCell input i s = (Invalid e, s')"
    by blast
  note h = loop_head_facts[OF assms(1) i l]
  from h(1) have sy: "in_sync i s" and len: "length (grid s) = 81"
    by (simp_all add: inv_upto_def sized_def)
  from readCell_Invalid_state[OF c]
  have "(\<forall>q<i. grid s' ! q = num_of (input ! q)) \<and>
     (invalid_char (input ! i) \<longrightarrow> grid s' ! i = g ! i) \<and>
     (\<not> invalid_char (input ! i) \<longrightarrow> 0 < num_of (input ! i) \<and> grid s' ! i = num_of (input ! i)) \<and>
     (\<forall>q<81. i < q \<longrightarrow> grid s' ! q = g ! q) \<and>
     in_sync i s'"
  proof (elim disjE conjE)
    assume "invalid_char (input ! i)" "s' = s"
    with h(2,3) sy i show ?thesis by simp
  next
    assume a: "\<not> invalid_char (input ! i)" "0 < num_of (input ! i)"
      "s' = s\<lparr>grid := (grid s)[i := num_of (input ! i)]\<rparr>"
    have "in_sync i s'" unfolding a(3) using sy by (rule in_sync_grid_update)
    with a h(2,3) i len show ?thesis by simp
  qed
  with i l c show ?thesis by blast
qed

theorem readInput_not_atomic_witness:
  "length (replicate 81 (0::int)) = 81 \<and> strlen dup_sub_input = 81 \<and>
   readInput dup_sub_input (fresh (replicate 81 0))
     = (Invalid ''The number 5 appears more than once in subgrid 2'',
        snd (readInput dup_sub_input (fresh (replicate 81 0)))) \<and>
   (\<exists>i<81.
     (\<exists>s. readLoop dup_sub_input 0 i (fresh (replicate 81 0)) = (Valid, s) \<and>
        readCell dup_sub_input i s
          = (Invalid ''The number 5 appears more than once in subgrid 2'',
             snd (readInput dup_sub_input (fresh (replicate 81 0))))) \<and>
     (\<forall>q<i. grid (snd (readInput dup_sub_input (fresh (replicate 81 0)))) ! q
        = num_of (dup_sub_input ! q)) \<and>
     (invalid_char (dup_sub_input ! i) \<longrightarrow>
        grid (snd (readInput dup_sub_input (fresh (replicate 81 0)))) ! i = replicate 81 0 ! i) \<and>
     (\<not> invalid_char (dup_sub_input ! i) \<longrightarrow> 0 < num_of (dup_sub_input ! i) \<and>
        grid (snd (readInput dup_sub_input (fresh (replicate 81 0)))) ! i
          = num_of (dup_sub_input ! i)) \<and>
     (\<forall>q<81. i < q \<longrightarrow>
        grid (snd (readInput dup_sub_input (fresh (replicate 81 0)))) ! q = replicate 81 0 ! q) \<and>
     in_sync i (snd (readInput dup_sub_input (fresh (replicate 81 0)))))"
proof -
  have len: "length (replicate 81 (0::int)) = 81" by simp
  have r: "readInput dup_sub_input (fresh (replicate 81 0))
     = (Invalid ''The number 5 appears more than once in subgrid 2'',
        snd (readInput dup_sub_input (fresh (replicate 81 0))))"
    using dup_sub_result by (cases "readInput dup_sub_input (fresh (replicate 81 0))") simp
  note c = readInput_not_atomic[OF len strlen_inputs(3) r]
  show ?thesis
    using len strlen_inputs(3) r c by (intro conjI) assumption+
qed

section \<open>The puzzle of the usage text\<close>

lemma ninths_arith: "p < 81 \<Longrightarrow> ninths ! p = 3 * (p div 27) + (p mod 9) div 3"
proof -
  have "\<forall>p \<in> set [0..<81]. ninths ! p = 3 * (p div 27) + (p mod 9) div 3"
    unfolding ninths_def by code_simp
  then show "p < 81 \<Longrightarrow> ninths ! p = 3 * (p div 27) + (p mod 9) div 3" by simp
qed

lemma digit_cases:
  "1 \<le> (x::int) \<Longrightarrow> x \<le> 9 \<Longrightarrow>
     x = 1 \<or> x = 2 \<or> x = 3 \<or> x = 4 \<or> x = 5 \<or> x = 6 \<or> x = 7 \<or> x = 8 \<or> x = 9"
  by arith

lemma list81:
  assumes "length (g::int list) = 81"
  shows "g = map ((!) g) [0..<81]"
  using map_nth[of g] assms by simp

text \<open>
  The puzzle has one completion: every empty cell, taken in a suitable order, sees eight
  different digits among its peers.
\<close>

lemma example_unique:
  assumes c: "completion example_state g"
  shows "g =
    [5, 3, 4, 6, 7, 8, 9, 1, 2, 6, 7, 2, 1, 9, 5, 3, 4, 8, 1, 9, 8, 3, 4, 2, 5, 6, 7, 8, 5,
     9, 7, 6, 1, 4, 2, 3, 4, 2, 6, 8, 5, 3, 7, 9, 1, 7, 1, 3, 9, 2, 4, 8, 5, 6, 9, 6, 1, 5,
     3, 7, 2, 8, 4, 2, 8, 7, 4, 1, 9, 6, 3, 5, 3, 4, 5, 2, 8, 6, 1, 7, 9]"
proof -
  have len: "length g = 81" using completionD(1)[OF c] .
  have digit: "g ! q = 1 \<or> g ! q = 2 \<or> g ! q = 3 \<or> g ! q = 4 \<or> g ! q = 5 \<or>
      g ! q = 6 \<or> g ! q = 7 \<or> g ! q = 8 \<or> g ! q = 9" if "q < 81" for q
    using completionD(2)[OF c that] by (intro digit_cases) simp_all
  have ne: "g ! p \<noteq> g ! q"
    if "p < 81" "q < 81" "p \<noteq> q"
      "p mod 9 = q mod 9 \<or> p div 9 = q div 9 \<or>
       3 * (p div 27) + (p mod 9) div 3 = 3 * (q div 27) + (q mod 9) div 3" for p q
    using completionD(3)[OF c that(1,2)] that by (simp add: peers_def ninths_arith)
  have clue: "g ! q = grid example_state ! q" if "q < 81" "0 < grid example_state ! q" for q
    using completionD(4)[OF c that] .
  have c0: "g ! 0 = 5" using clue[of 0] by (simp add: example_state_def)
  have c1: "g ! 1 = 3" using clue[of 1] by (simp add: example_state_def)
  have c4: "g ! 4 = 7" using clue[of 4] by (simp add: example_state_def)
  have c9: "g ! 9 = 6" using clue[of 9] by (simp add: example_state_def)
  have c12: "g ! 12 = 1" using clue[of 12] by (simp add: example_state_def)
  have c13: "g ! 13 = 9" using clue[of 13] by (simp add: example_state_def)
  have c14: "g ! 14 = 5" using clue[of 14] by (simp add: example_state_def)
  have c19: "g ! 19 = 9" using clue[of 19] by (simp add: example_state_def)
  have c20: "g ! 20 = 8" using clue[of 20] by (simp add: example_state_def)
  have c25: "g ! 25 = 6" using clue[of 25] by (simp add: example_state_def)
  have c27: "g ! 27 = 8" using clue[of 27] by (simp add: example_state_def)
  have c31: "g ! 31 = 6" using clue[of 31] by (simp add: example_state_def)
  have c35: "g ! 35 = 3" using clue[of 35] by (simp add: example_state_def)
  have c36: "g ! 36 = 4" using clue[of 36] by (simp add: example_state_def)
  have c39: "g ! 39 = 8" using clue[of 39] by (simp add: example_state_def)
  have c41: "g ! 41 = 3" using clue[of 41] by (simp add: example_state_def)
  have c44: "g ! 44 = 1" using clue[of 44] by (simp add: example_state_def)
  have c45: "g ! 45 = 7" using clue[of 45] by (simp add: example_state_def)
  have c49: "g ! 49 = 2" using clue[of 49] by (simp add: example_state_def)
  have c53: "g ! 53 = 6" using clue[of 53] by (simp add: example_state_def)
  have c55: "g ! 55 = 6" using clue[of 55] by (simp add: example_state_def)
  have c60: "g ! 60 = 2" using clue[of 60] by (simp add: example_state_def)
  have c61: "g ! 61 = 8" using clue[of 61] by (simp add: example_state_def)
  have c66: "g ! 66 = 4" using clue[of 66] by (simp add: example_state_def)
  have c67: "g ! 67 = 1" using clue[of 67] by (simp add: example_state_def)
  have c68: "g ! 68 = 9" using clue[of 68] by (simp add: example_state_def)
  have c71: "g ! 71 = 5" using clue[of 71] by (simp add: example_state_def)
  have c76: "g ! 76 = 8" using clue[of 76] by (simp add: example_state_def)
  have c79: "g ! 79 = 7" using clue[of 79] by (simp add: example_state_def)
  have c80: "g ! 80 = 9" using clue[of 80] by (simp add: example_state_def)
  have c40: "g ! 40 = 5"
    using digit[of 40] ne[of 40 44] ne[of 40 49] ne[of 40 41] ne[of 40 36] ne[of 40 31] ne[of 40 4] ne[of 40 39] ne[of 40 13]
      c44 c49 c41 c36 c31 c4 c39 c13 by simp
  have c48: "g ! 48 = 9"
    using digit[of 48] ne[of 48 12] ne[of 48 49] ne[of 48 41] ne[of 48 66] ne[of 48 40] ne[of 48 31] ne[of 48 45] ne[of 48 39]
      c12 c49 c41 c66 c40 c31 c45 c39 by simp
  have c58: "g ! 58 = 3"
    using digit[of 58] ne[of 58 67] ne[of 58 49] ne[of 58 66] ne[of 58 40] ne[of 58 31] ne[of 58 4] ne[of 58 61] ne[of 58 13]
      c67 c49 c66 c40 c31 c4 c61 c13 by simp
  have c59: "g ! 59 = 7"
    using digit[of 59] ne[of 59 67] ne[of 59 60] ne[of 59 41] ne[of 59 66] ne[of 59 14] ne[of 59 55] ne[of 59 61] ne[of 59 68]
      c67 c60 c41 c66 c14 c55 c61 c68 by simp
  have c62: "g ! 62 = 4"
    using digit[of 62] ne[of 62 44] ne[of 62 60] ne[of 62 35] ne[of 62 71] ne[of 62 53] ne[of 62 59] ne[of 62 61] ne[of 62 80]
      c44 c60 c35 c71 c53 c59 c61 c80 by simp
  have c70: "g ! 70 = 3"
    using digit[of 70] ne[of 70 67] ne[of 70 60] ne[of 70 62] ne[of 70 71] ne[of 70 25] ne[of 70 79] ne[of 70 61] ne[of 70 68]
      c67 c60 c62 c71 c25 c79 c61 c68 by simp
  have c22: "g ! 22 = 4"
    using digit[of 22] ne[of 22 12] ne[of 22 49] ne[of 22 58] ne[of 22 14] ne[of 22 25] ne[of 22 4] ne[of 22 20] ne[of 22 13]
      c12 c49 c58 c14 c25 c4 c20 c13 by simp
  have c23: "g ! 23 = 2"
    using digit[of 23] ne[of 23 12] ne[of 23 41] ne[of 23 22] ne[of 23 14] ne[of 23 25] ne[of 23 4] ne[of 23 20] ne[of 23 13]
      c12 c41 c22 c14 c25 c4 c20 c13 by simp
  have c26: "g ! 26 = 7"
    using digit[of 26] ne[of 26 44] ne[of 26 23] ne[of 26 35] ne[of 26 22] ne[of 26 71] ne[of 26 25] ne[of 26 20] ne[of 26 19]
      c44 c23 c35 c22 c71 c25 c20 c19 by simp
  have c30: "g ! 30 = 7"
    using digit[of 30] ne[of 30 12] ne[of 30 49] ne[of 30 35] ne[of 30 66] ne[of 30 40] ne[of 30 31] ne[of 30 27] ne[of 30 48]
      c12 c49 c35 c66 c40 c31 c27 c48 by simp
  have c37: "g ! 37 = 2"
    using digit[of 37] ne[of 37 44] ne[of 37 1] ne[of 37 36] ne[of 37 40] ne[of 37 55] ne[of 37 45] ne[of 37 27] ne[of 37 19]
      c44 c1 c36 c40 c55 c45 c27 c19 by simp
  have c43: "g ! 43 = 9"
    using digit[of 43] ne[of 43 44] ne[of 43 37] ne[of 43 35] ne[of 43 36] ne[of 43 40] ne[of 43 25] ne[of 43 79] ne[of 43 39]
      c44 c37 c35 c36 c40 c25 c79 c39 by simp
  have c57: "g ! 57 = 5"
    using digit[of 57] ne[of 57 12] ne[of 57 60] ne[of 57 58] ne[of 57 62] ne[of 57 55] ne[of 57 30] ne[of 57 39] ne[of 57 48]
      c12 c60 c58 c62 c55 c30 c39 c48 by simp
  have c63: "g ! 63 = 2"
    using digit[of 63] ne[of 63 67] ne[of 63 70] ne[of 63 36] ne[of 63 0] ne[of 63 9] ne[of 63 45] ne[of 63 27] ne[of 63 68]
      c67 c70 c36 c0 c9 c45 c27 c68 by simp
  have c65: "g ! 65 = 7"
    using digit[of 65] ne[of 65 67] ne[of 65 63] ne[of 65 70] ne[of 65 66] ne[of 65 71] ne[of 65 55] ne[of 65 20] ne[of 65 68]
      c67 c63 c70 c66 c71 c55 c20 c68 by simp
  have c69: "g ! 69 = 6"
    using digit[of 69] ne[of 69 67] ne[of 69 60] ne[of 69 70] ne[of 69 62] ne[of 69 71] ne[of 69 65] ne[of 69 61] ne[of 69 68]
      c67 c60 c70 c62 c71 c65 c61 c68 by simp
  have c77: "g ! 77 = 6"
    using digit[of 77] ne[of 77 67] ne[of 77 23] ne[of 77 41] ne[of 77 66] ne[of 77 14] ne[of 77 59] ne[of 77 76] ne[of 77 68]
      c67 c23 c41 c66 c14 c59 c76 c68 by simp
  have c78: "g ! 78 = 1"
    using digit[of 78] ne[of 78 60] ne[of 78 70] ne[of 78 62] ne[of 78 71] ne[of 78 69] ne[of 78 79] ne[of 78 61] ne[of 78 80]
      c60 c70 c62 c71 c69 c79 c61 c80 by simp
  have c3: "g ! 3 = 6"
    using digit[of 3] ne[of 3 12] ne[of 3 23] ne[of 3 1] ne[of 3 22] ne[of 3 0] ne[of 3 4] ne[of 3 39] ne[of 3 13]
      c12 c23 c1 c22 c0 c4 c39 c13 by simp
  have c5: "g ! 5 = 8"
    using digit[of 5] ne[of 5 12] ne[of 5 23] ne[of 5 1] ne[of 5 22] ne[of 5 0] ne[of 5 3] ne[of 5 4] ne[of 5 13]
      c12 c23 c1 c22 c0 c3 c4 c13 by simp
  have c8: "g ! 8 = 2"
    using digit[of 8] ne[of 8 44] ne[of 8 1] ne[of 8 62] ne[of 8 0] ne[of 8 3] ne[of 8 4] ne[of 8 5] ne[of 8 80]
      c44 c1 c62 c0 c3 c4 c5 c80 by simp
  have c16: "g ! 16 = 4"
    using digit[of 16] ne[of 16 12] ne[of 16 8] ne[of 16 70] ne[of 16 14] ne[of 16 9] ne[of 16 26] ne[of 16 61] ne[of 16 13]
      c12 c8 c70 c14 c9 c26 c61 c13 by simp
  have c17: "g ! 17 = 8"
    using digit[of 17] ne[of 17 12] ne[of 17 8] ne[of 17 35] ne[of 17 16] ne[of 17 14] ne[of 17 9] ne[of 17 26] ne[of 17 13]
      c12 c8 c35 c16 c14 c9 c26 c13 by simp
  have c18: "g ! 18 = 1"
    using digit[of 18] ne[of 18 23] ne[of 18 1] ne[of 18 22] ne[of 18 0] ne[of 18 9] ne[of 18 26] ne[of 18 20] ne[of 18 19]
      c23 c1 c22 c0 c9 c26 c20 c19 by simp
  have c21: "g ! 21 = 3"
    using digit[of 21] ne[of 21 12] ne[of 21 23] ne[of 21 22] ne[of 21 14] ne[of 21 3] ne[of 21 4] ne[of 21 5] ne[of 21 13]
      c12 c23 c22 c14 c3 c4 c5 c13 by simp
  have c24: "g ! 24 = 5"
    using digit[of 24] ne[of 24 18] ne[of 24 8] ne[of 24 21] ne[of 24 16] ne[of 24 25] ne[of 24 26] ne[of 24 17] ne[of 24 19]
      c18 c8 c21 c16 c25 c26 c17 c19 by simp
  have c33: "g ! 33 = 4"
    using digit[of 33] ne[of 33 44] ne[of 33 60] ne[of 33 35] ne[of 33 24] ne[of 33 31] ne[of 33 30] ne[of 33 27] ne[of 33 43]
      c44 c60 c35 c24 c31 c30 c27 c43 by simp
  have c38: "g ! 38 = 6"
    using digit[of 38] ne[of 38 44] ne[of 38 37] ne[of 38 41] ne[of 38 36] ne[of 38 40] ne[of 38 45] ne[of 38 20] ne[of 38 43]
      c44 c37 c41 c36 c40 c45 c20 c43 by simp
  have c42: "g ! 42 = 7"
    using digit[of 42] ne[of 42 44] ne[of 42 37] ne[of 42 35] ne[of 42 33] ne[of 42 24] ne[of 42 38] ne[of 42 39] ne[of 42 43]
      c44 c37 c35 c33 c24 c38 c39 c43 by simp
  have c51: "g ! 51 = 8"
    using digit[of 51] ne[of 51 44] ne[of 51 49] ne[of 51 35] ne[of 51 33] ne[of 51 24] ne[of 51 53] ne[of 51 42] ne[of 51 43]
      c44 c49 c35 c33 c24 c53 c42 c43 by simp
  have c52: "g ! 52 = 5"
    using digit[of 52] ne[of 52 44] ne[of 52 49] ne[of 52 35] ne[of 52 16] ne[of 52 25] ne[of 52 42] ne[of 52 51] ne[of 52 43]
      c44 c49 c35 c16 c25 c42 c51 c43 by simp
  have c54: "g ! 54 = 9"
    using digit[of 54] ne[of 54 18] ne[of 54 60] ne[of 54 58] ne[of 54 36] ne[of 54 0] ne[of 54 9] ne[of 54 45] ne[of 54 27]
      c18 c60 c58 c36 c0 c9 c45 c27 by simp
  have c56: "g ! 56 = 1"
    using digit[of 56] ne[of 56 60] ne[of 56 58] ne[of 56 62] ne[of 56 57] ne[of 56 38] ne[of 56 59] ne[of 56 20] ne[of 56 54]
      c60 c58 c62 c57 c38 c59 c20 c54 by simp
  have c64: "g ! 64 = 8"
    using digit[of 64] ne[of 64 56] ne[of 64 37] ne[of 64 1] ne[of 64 66] ne[of 64 71] ne[of 64 55] ne[of 64 65] ne[of 64 19]
      c56 c37 c1 c66 c71 c55 c65 c19 by simp
  have c72: "g ! 72 = 3"
    using digit[of 72] ne[of 72 18] ne[of 72 63] ne[of 72 36] ne[of 72 0] ne[of 72 9] ne[of 72 45] ne[of 72 27] ne[of 72 54]
      c18 c63 c36 c0 c9 c45 c27 c54 by simp
  have c75: "g ! 75 = 2"
    using digit[of 75] ne[of 75 12] ne[of 75 21] ne[of 75 66] ne[of 75 57] ne[of 75 3] ne[of 75 30] ne[of 75 39] ne[of 75 48]
      c12 c21 c66 c57 c3 c30 c39 c48 by simp
  have c2: "g ! 2 = 4"
    using digit[of 2] ne[of 2 18] ne[of 2 8] ne[of 2 1] ne[of 2 0] ne[of 2 3] ne[of 2 4] ne[of 2 5] ne[of 2 19]
      c18 c8 c1 c0 c3 c4 c5 c19 by simp
  have c6: "g ! 6 = 9"
    using digit[of 6] ne[of 6 78] ne[of 6 8] ne[of 6 1] ne[of 6 2] ne[of 6 0] ne[of 6 3] ne[of 6 4] ne[of 6 5]
      c78 c8 c1 c2 c0 c3 c4 c5 by simp
  have c7: "g ! 7 = 1"
    using digit[of 7] ne[of 7 8] ne[of 7 1] ne[of 7 2] ne[of 7 0] ne[of 7 3] ne[of 7 4] ne[of 7 5] ne[of 7 6]
      c8 c1 c2 c0 c3 c4 c5 c6 by simp
  have c10: "g ! 10 = 7"
    using digit[of 10] ne[of 10 12] ne[of 10 37] ne[of 10 1] ne[of 10 2] ne[of 10 0] ne[of 10 9] ne[of 10 17] ne[of 10 13]
      c12 c37 c1 c2 c0 c9 c17 c13 by simp
  have c11: "g ! 11 = 2"
    using digit[of 11] ne[of 11 12] ne[of 11 1] ne[of 11 2] ne[of 11 0] ne[of 11 9] ne[of 11 10] ne[of 11 17] ne[of 11 13]
      c12 c1 c2 c0 c9 c10 c17 c13 by simp
  have c15: "g ! 15 = 3"
    using digit[of 15] ne[of 15 7] ne[of 15 8] ne[of 15 16] ne[of 15 14] ne[of 15 9] ne[of 15 10] ne[of 15 17] ne[of 15 6]
      c7 c8 c16 c14 c9 c10 c17 c6 by simp
  have c32: "g ! 32 = 1"
    using digit[of 32] ne[of 32 23] ne[of 32 35] ne[of 32 33] ne[of 32 14] ne[of 32 31] ne[of 32 30] ne[of 32 5] ne[of 32 48]
      c23 c35 c33 c14 c31 c30 c5 c48 by simp
  have c34: "g ! 34 = 2"
    using digit[of 34] ne[of 34 7] ne[of 34 35] ne[of 34 16] ne[of 34 52] ne[of 34 25] ne[of 34 30] ne[of 34 27] ne[of 34 43]
      c7 c35 c16 c52 c25 c30 c27 c43 by simp
  have c46: "g ! 46 = 1"
    using digit[of 46] ne[of 46 37] ne[of 46 1] ne[of 46 36] ne[of 46 52] ne[of 46 38] ne[of 46 10] ne[of 46 27] ne[of 46 19]
      c37 c1 c36 c52 c38 c10 c27 c19 by simp
  have c47: "g ! 47 = 3"
    using digit[of 47] ne[of 47 46] ne[of 47 11] ne[of 47 2] ne[of 47 52] ne[of 47 38] ne[of 47 45] ne[of 47 20] ne[of 47 48]
      c46 c11 c2 c52 c38 c45 c20 c48 by simp
  have c50: "g ! 50 = 4"
    using digit[of 50] ne[of 50 32] ne[of 50 23] ne[of 50 41] ne[of 50 14] ne[of 50 31] ne[of 50 30] ne[of 50 5] ne[of 50 48]
      c32 c23 c41 c14 c31 c30 c5 c48 by simp
  have c74: "g ! 74 = 5"
    using digit[of 74] ne[of 74 56] ne[of 74 11] ne[of 74 47] ne[of 74 2] ne[of 74 38] ne[of 74 65] ne[of 74 20] ne[of 74 54]
      c56 c11 c47 c2 c38 c65 c20 c54 by simp
  have c28: "g ! 28 = 5"
    using digit[of 28] ne[of 28 32] ne[of 28 34] ne[of 28 1] ne[of 28 33] ne[of 28 31] ne[of 28 10] ne[of 28 27] ne[of 28 19]
      c32 c34 c1 c33 c31 c10 c27 c19 by simp
  have c29: "g ! 29 = 9"
    using digit[of 29] ne[of 29 32] ne[of 29 11] ne[of 29 35] ne[of 29 2] ne[of 29 28] ne[of 29 31] ne[of 29 30] ne[of 29 20]
      c32 c11 c35 c2 c28 c31 c30 c20 by simp
  have c73: "g ! 73 = 4"
    using digit[of 73] ne[of 73 46] ne[of 73 37] ne[of 73 1] ne[of 73 28] ne[of 73 55] ne[of 73 10] ne[of 73 64] ne[of 73 19]
      c46 c37 c1 c28 c55 c10 c64 c19 by simp
  have "g = map ((!) g) [0..<81]" using len by (rule list81)
  also have "map ((!) g) [0..<81] =
    [5, 3, 4, 6, 7, 8, 9, 1, 2,
     6, 7, 2, 1, 9, 5, 3, 4, 8,
     1, 9, 8, 3, 4, 2, 5, 6, 7,
     8, 5, 9, 7, 6, 1, 4, 2, 3,
     4, 2, 6, 8, 5, 3, 7, 9, 1,
     7, 1, 3, 9, 2, 4, 8, 5, 6,
     9, 6, 1, 5, 3, 7, 2, 8, 4,
     2, 8, 7, 4, 1, 9, 6, 3, 5,
     3, 4, 5, 2, 8, 6, 1, 7, 9]"
    by (simp del: One_nat_def add: upt_rec[of 0] upt_rec[of 1] One_nat_def[symmetric]
      c0 c1 c2 c3 c4 c5 c6 c7 c8 c9 c10 c11 c12 c13 c14 c15 c16 c17 c18 c19 c20 c21 c22 c23
      c24 c25 c26 c27 c28 c29 c30 c31 c32 c33 c34 c35 c36 c37 c38 c39 c40 c41 c42 c43 c44
      c45 c46 c47 c48 c49 c50 c51 c52 c53 c54 c55 c56 c57 c58 c59 c60 c61 c62 c63 c64 c65
      c66 c67 c68 c69 c70 c71 c72 c73 c74 c75 c76 c77 c78 c79 c80)
  finally show ?thesis .
qed

text \<open>Validation does not read the grid: its result is the same from any initial grid.\<close>

lemma readLoop_any_grid:
  "readLoop input i n s = (Valid, s') \<Longrightarrow>
   columns t = columns s \<Longrightarrow> rows t = rows s \<Longrightarrow> subgrid t = subgrid s \<Longrightarrow>
   \<exists>t'. readLoop input i n t = (Valid, t') \<and>
     columns t' = columns s' \<and> rows t' = rows s' \<and> subgrid t' = subgrid s'"
proof (induction input i n s arbitrary: t rule: readLoop.induct)
  case (1 input i n s)
  note l = "1.prems"(1) and sets = "1.prems"(2-4)
  show ?case
  proof (cases "i < n")
    case False
    with l sets show ?thesis by (simp add: readLoop_done)
  next
    case True
    obtain r s1 where c: "readCell input i s = (r, s1)" by (cases "readCell input i s")
    show ?thesis
    proof (cases r)
      case (Invalid e)
      with c True l show ?thesis by (simp add: readLoop_fail)
    next
      case Valid
      with c True l have l': "readLoop input (i + 1) n s1 = (Valid, s')"
        by (simp add: readLoop_step)
      from c Valid have cv: "readCell input i s = (Valid, s1)" by simp
      then have "\<exists>t1. readCell input i t = (Valid, t1) \<and>
          columns t1 = columns s1 \<and> rows t1 = rows s1 \<and> subgrid t1 = subgrid s1"
      proof (cases rule: readCell_Valid_cases)
        case empty
        then have "readCell input i t = (Valid, t\<lparr>grid := (grid t)[i := num_of (input ! i)]\<rparr>)"
          by (simp add: readCell_empty)
        with empty sets show ?thesis by simp
      next
        case placed
        from placed(3) sets have "\<not> blocked i (nat (num_of (input ! i) - 1)) t"
          by (simp add: blocked_def)
        with placed have "readCell input i t = (Valid, place i (nat (num_of (input ! i) - 1)) t)"
          by (simp add: readCell_placed)
        with placed sets show ?thesis by (simp add: place_def)
      qed
      then obtain t1 where ct: "readCell input i t = (Valid, t1)"
        and s1: "columns t1 = columns s1" "rows t1 = rows s1" "subgrid t1 = subgrid s1"
        by blast
      from "1.IH"[OF True c[symmetric] Valid l' s1] obtain t' where
        "readLoop input (i + 1) n t1 = (Valid, t')"
        "columns t' = columns s'" "rows t' = rows s'" "subgrid t' = subgrid s'"
        by blast
      with ct True show ?thesis by (simp add: readLoop_step)
    qed
  qed
qed

lemma example_read_any:
  assumes "length g = 81"
  shows "readInput example (fresh g) = (Valid, example_state)"
proof -
  have len: "strlen example = 81" by code_simp
  from example_read len have l: "readLoop example 0 81 (fresh (replicate 81 0)) = (Valid, example_state)"
    by (simp add: readInput_def)
  from readLoop_any_grid[OF l, of "fresh g"] obtain t where
    t: "readLoop example 0 81 (fresh g) = (Valid, t)"
    and sets: "columns t = columns example_state" "rows t = rows example_state"
      "subgrid t = subgrid example_state"
    by (auto simp add: fresh_def)
  have "length (grid t) = 81 \<and>
      (\<forall>q<81. grid t ! q = (if 0 \<le> q \<and> q < 81 then num_of (example ! q) else grid (fresh g) ! q))"
    using readLoop_grid[OF t] assms by (simp add: fresh_def)
  moreover have "length (grid example_state) = 81 \<and>
      (\<forall>q<81. grid example_state ! q =
         (if 0 \<le> q \<and> q < 81 then num_of (example ! q) else grid (fresh (replicate 81 0)) ! q))"
    using readLoop_grid[OF l] by (simp add: fresh_def)
  ultimately have "grid t = grid example_state"
    by (intro nth_equalityI) simp_all
  with sets have "t = example_state" by simp
  with t len show ?thesis by (simp add: readInput_def)
qed

lemma example_completion: "completion example_state (grid solved_state)"
proof -
  have "completion near_state (grid solved_state)"
    using near_inv near_solve by (rule solve_True_completion)
  then have "valid_grid (grid solved_state)" by (simp add: completion_def)
  moreover have "\<forall>q\<in>{..<81}. 0 < grid example_state ! q
      \<longrightarrow> grid solved_state ! q = grid example_state ! q"
    by (rule clues_agree) (simp_all add: example_state_def solved_state_def)
  ultimately show ?thesis by (simp add: completion_def)
qed

text \<open>
  C3. For the input of the usage text, from the state of \<^verbatim>\<open>main\<close> with any initial
  grid, \<^verbatim>\<open>readInput\<close> succeeds, \<open>solve 0\<close> returns true on the state it built, and the
  grid it leaves is, row by row, the grid printed in the README.
\<close>

theorem example_is_solved:
  assumes "length g = 81"
  shows "\<exists>s t. readInput example (fresh g) = (Valid, s) \<and> solve 0 s = Some (True, t) \<and>
     grid t =
      [5, 3, 4, 6, 7, 8, 9, 1, 2,
       6, 7, 2, 1, 9, 5, 3, 4, 8,
       1, 9, 8, 3, 4, 2, 5, 6, 7,
       8, 5, 9, 7, 6, 1, 4, 2, 3,
       4, 2, 6, 8, 5, 3, 7, 9, 1,
       7, 1, 3, 9, 2, 4, 8, 5, 6,
       9, 6, 1, 5, 3, 7, 2, 8, 4,
       2, 8, 7, 4, 1, 9, 6, 3, 5,
       3, 4, 5, 2, 8, 6, 1, 7, 9]"
proof -
  have r: "readInput example (fresh g) = (Valid, example_state)"
    using assms by (rule example_read_any)
  obtain b t where s: "solve 0 example_state = Some (b, t)"
    using solve_total_aux(1)[of 0 example_state] by auto
  have b
  proof (rule ccontr)
    assume "\<not> b"
    with s have "solve 0 example_state = Some (False, t)" by simp
    from solve_False_no_completion[OF example_inv this] example_completion show False by blast
  qed
  with s have s': "solve 0 example_state = Some (True, t)" by simp
  have "completion example_state (grid t)"
    using example_inv s' by (rule solve_True_completion)
  then have "grid t =
      [5, 3, 4, 6, 7, 8, 9, 1, 2,
       6, 7, 2, 1, 9, 5, 3, 4, 8,
       1, 9, 8, 3, 4, 2, 5, 6, 7,
       8, 5, 9, 7, 6, 1, 4, 2, 3,
       4, 2, 6, 8, 5, 3, 7, 9, 1,
       7, 1, 3, 9, 2, 4, 8, 5, 6,
       9, 6, 1, 5, 3, 7, 2, 8, 4,
       2, 8, 7, 4, 1, 9, 6, 3, 5,
       3, 4, 5, 2, 8, 6, 1, 7, 9]"
    by (rule example_unique)
  with r s' show ?thesis by blast
qed

theorem example_is_solved_witness:
  "length (replicate 81 (0::int)) = 81 \<and>
   (\<exists>s t. readInput example (fresh (replicate 81 0)) = (Valid, s) \<and>
      solve 0 s = Some (True, t) \<and>
      grid t =
      [5, 3, 4, 6, 7, 8, 9, 1, 2,
       6, 7, 2, 1, 9, 5, 3, 4, 8,
       1, 9, 8, 3, 4, 2, 5, 6, 7,
       8, 5, 9, 7, 6, 1, 4, 2, 3,
       4, 2, 6, 8, 5, 3, 7, 9, 1,
       7, 1, 3, 9, 2, 4, 8, 5, 6,
       9, 6, 1, 5, 3, 7, 2, 8, 4,
       2, 8, 7, 4, 1, 9, 6, 3, 5,
       3, 4, 5, 2, 8, 6, 1, 7, 9])"
proof -
  have len: "length (replicate 81 (0::int)) = 81" by simp
  from example_is_solved[OF len] len show ?thesis by (intro conjI) assumption+
qed

end
